theory Spec2Isabelle
  imports Complex_Main
begin

section \<open>Data model of the flag chase (src/main.cpp)\<close>

text \<open>
  The C++ \<open>int\<close> values of the program (grid coordinates, toon indices, counters) are
  modelled as unbounded integers: every coordinate that is stored has passed the bounds
  test of the board, and no arithmetic of the program comes near the 32-bit limits.
  A \<open>steady_clock\<close> time point is the integer number of its ticks (nanoseconds).
  Every value drawn from a random engine is a parameter of the function that draws it.
  Rendering (\<open>rebuild_grid\<close>, \<open>print_board\<close>, \<open>log_event\<close>) writes only the render
  buffer and the console and is left out, apart from the final summary; so are the
  options \<open>seed\<close> (the draws are parameters) and \<open>stacked\<close> (never read) and the sleeps.
\<close>

record Pos =
  r :: int
  c :: int

record Options =
  rows :: int
  cols :: int
  toons :: int
  maxSteps :: int
  delay_ms :: int
  rr_burst_chance :: real
  coy_jump_chance :: real
  sam_shoot_chance :: real
  sam_cooldown_ms :: int
  sam_freeze_ms :: int

record Board =
  R :: int
  C :: int
  cell :: "char list list"
  finishCol :: int
  flag :: Pos
  toonPos :: "Pos list"
  frozen_until :: "int list"
  steps :: "int list"

text \<open>The board together with the atomics shared by the threads of \<open>main\<close>.\<close>

record Race =
  board :: Board
  gameOver :: bool
  winner :: int
  totalSteps :: int
  sam_on_cd :: bool
  gStop :: bool

text \<open>The random draws and clock readings of one iteration of the worker loop.\<close>

record Draws =
  now_top :: int
  bias_u :: real
  axis :: int
  pick1 :: int
  jump_u :: real
  shoot_u :: real
  scan_clk :: "nat \<Rightarrow> int"
  shoot_now :: int
  burst_u :: real
  pick2 :: int

definition ROADRUNNER :: nat where
  "ROADRUNNER = 0"

definition COYOTE :: nat where
  "COYOTE = 1"

definition YOSEMITESAM :: nat where
  "YOSEMITESAM = 2"

definition TOON_CH :: "char list" where
  "TOON_CH = ''RCY''"

definition TOON_NM :: "string list" where
  "TOON_NM = [''RoadRunner'', ''Coyote'', ''YosemiteSam'']"

definition time_point_min :: int where
  "time_point_min = - (2 ^ 63)"

definition milliseconds :: "int \<Rightarrow> int" where
  "milliseconds n = n * 1000000"

text \<open>
  The probabilities are doubles. The literals 0.70 and 0.15 of the source are the doubles
  nearest to them, \<open>0x1.6666666666666p-1\<close> and \<open>0x1.3333333333333p-3\<close>; 0.25 is exact.
  A roll is a double in the unit interval, and the comparison of two doubles is the
  comparison of the real numbers they stand for.
\<close>

definition double_0_70 :: real where
  "double_0_70 = 3152519739159347 / 2 ^ 52"

definition double_0_15 :: real where
  "double_0_15 = 5404319552844595 / 2 ^ 55"

definition default_Options :: Options where
  "default_Options =
     \<lparr>rows = 18, cols = 36, toons = 3, maxSteps = 10000, delay_ms = 120,
      rr_burst_chance = double_0_15, coy_jump_chance = 0.25, sam_shoot_chance = double_0_15,
      sam_cooldown_ms = 1500, sam_freeze_ms = 1000\<rparr>"

text \<open>The last four assignments of \<open>parseArgs\<close>: the clamps on the parsed options.\<close>

definition parseArgs_clamp :: "Options \<Rightarrow> Options" where
  "parseArgs_clamp o0 =
     o0\<lparr>toons := max 1 (min (toons o0) 3),
        rows := max 5 (rows o0),
        cols := max 20 (cols o0),
        maxSteps := max 100 (maxSteps o0)\<rparr>"

text \<open>The constructor \<open>Board(r, c, nToons)\<close>.\<close>

definition Board_init :: "int \<Rightarrow> int \<Rightarrow> int \<Rightarrow> Board" where
  "Board_init y x n =
     \<lparr>R = y, C = x,
      cell = replicate (nat y) (replicate (nat x) CHR ''.''),
      finishCol = x - 1,
      flag = \<lparr>r = y div 2, c = x - 2\<rparr>,
      toonPos = replicate (nat n) \<lparr>r = 0, c = 0\<rparr>,
      frozen_until = replicate (nat n) time_point_min,
      steps = replicate (nat n) 0\<rparr>"

definition inBounds :: "Board \<Rightarrow> int \<Rightarrow> int \<Rightarrow> bool" where
  "inBounds b y x = (y \<ge> 0 \<and> y < R b \<and> x \<ge> 0 \<and> x < C b)"

text \<open>\<open>board.cell[y][x]\<close>; the program reads it only after \<open>inBounds\<close> has held.\<close>

definition cell_at :: "Board \<Rightarrow> int \<Rightarrow> int \<Rightarrow> char" where
  "cell_at b y x = cell b ! nat y ! nat x"

definition dirs :: "Pos list" where
  "dirs = [\<lparr>r = -1, c = 0\<rparr>, \<lparr>r = 1, c = 0\<rparr>, \<lparr>r = 0, c = -1\<rparr>, \<lparr>r = 0, c = 1\<rparr>,
           \<lparr>r = 0, c = 0\<rparr>]"

text \<open>\<open>pick_step\<close>; the argument is the value of \<open>dist(rng)\<close>, drawn from 0..4.\<close>

definition pick_step :: "int \<Rightarrow> Pos" where
  "pick_step k = dirs ! nat k"

section \<open>Start-up: walls and starting positions\<close>

text \<open>
  The engine \<open>rng\<close> of \<open>main\<close> is read in pairs \<open>(rr(rng), cc(rng))\<close>; the pairs are
  given as a list, and a function that needs a pair when the list is empty returns
  \<open>None\<close>. The distributions give \<open>0 \<le> y \<le> R - 1\<close> and \<open>0 \<le> x \<le> C - 3\<close>.
\<close>

definition draws_ok :: "Options \<Rightarrow> (int \<times> int) list \<Rightarrow> bool" where
  "draws_ok opt ds =
     list_all (\<lambda>(y, x). 0 \<le> y \<and> y \<le> rows opt - 1 \<and> 0 \<le> x \<and> x \<le> cols opt - 3) ds"

fun sprinkle_walls ::
  "nat \<Rightarrow> (int \<times> int) list \<Rightarrow> Board \<Rightarrow> (Board \<times> (int \<times> int) list) option" where
  "sprinkle_walls 0 ds b = Some (b, ds)"
| "sprinkle_walls (Suc n) [] b = None"
| "sprinkle_walls (Suc n) ((y, x) # ds) b =
     (if y = r (flag b) \<and> x = c (flag b) then sprinkle_walls (Suc n) ds b
      else sprinkle_walls n ds
             (b\<lparr>cell := (cell b)[nat y := (cell b ! nat y)[nat x := CHR ''#'']]\<rparr>))"

text \<open>The \<open>do ... while\<close> loop that draws a cell until it is unused and no wall.\<close>

fun find_free ::
  "Board \<Rightarrow> bool list list \<Rightarrow> (int \<times> int) list \<Rightarrow> ((int \<times> int) \<times> (int \<times> int) list) option"
  where
  "find_free b used [] = None"
| "find_free b used ((y, x) # ds) =
     (if used ! nat y ! nat x \<or> cell_at b y x = CHR ''#'' then find_free b used ds
      else Some ((y, x), ds))"

fun place_toons ::
  "nat list \<Rightarrow> bool list list \<Rightarrow> (int \<times> int) list \<Rightarrow> Board \<Rightarrow> Board option" where
  "place_toons [] used ds b = Some b"
| "place_toons (t # ts) used ds b =
     (case find_free b used ds of
        None \<Rightarrow> None
      | Some ((y, x), ds') \<Rightarrow>
          place_toons ts (used[nat y := (used ! nat y)[nat x := True]]) ds'
            (b\<lparr>toonPos := (toonPos b)[t := \<lparr>r = y, c = x\<rparr>]\<rparr>))"

definition used_init :: "Board \<Rightarrow> bool list list" where
  "used_init b =
     (replicate (nat (R b)) (replicate (nat (C b)) False))
       [nat (r (flag b)) :=
          (replicate (nat (C b)) False)[nat (c (flag b)) := True]]"

text \<open>\<open>main\<close> up to the start of the workers, on the clamped options.\<close>

definition main_init :: "Options \<Rightarrow> (int \<times> int) list \<Rightarrow> Race option" where
  "main_init opt ds =
     (let b = Board_init (rows opt) (cols opt) (toons opt);
          numWalls = (R b * C b) div 30
      in case sprinkle_walls (nat numWalls) ds b of
           None \<Rightarrow> None
         | Some (b1, ds1) \<Rightarrow>
             (case place_toons [0..<nat (toons opt)] (used_init b1) ds1 b1 of
                None \<Rightarrow> None
              | Some b2 \<Rightarrow>
                  Some \<lparr>board = b2, gameOver = False, winner = -1, totalSteps = 0,
                        sam_on_cd = False, gStop = False\<rparr>))"

section \<open>The worker\<close>

text \<open>Lines 197-208: the proposed step, from the three draws of that block.\<close>

definition toward :: "Pos \<Rightarrow> Pos \<Rightarrow> Pos" where
  "toward g cur =
     \<lparr>r = of_bool (r g > r cur) - of_bool (r g < r cur),
      c = of_bool (c g > c cur) - of_bool (c g < c cur)\<rparr>"

definition propose_step :: "Board \<Rightarrow> nat \<Rightarrow> real \<Rightarrow> int \<Rightarrow> int \<Rightarrow> Pos" where
  "propose_step b t u coin k =
     (let cur = toonPos b ! t; dir = toward (flag b) cur
      in if u < double_0_70 then
           (if coin = 0 \<and> r dir \<noteq> 0 then \<lparr>r = r dir, c = 0\<rparr>
            else if c dir \<noteq> 0 then \<lparr>r = 0, c = c dir\<rparr>
            else pick_step k)
         else pick_step k)"

text \<open>The lambda \<open>occ\<close>: is the cell taken by a toon other than \<open>t\<close>?\<close>

definition occ :: "Board \<Rightarrow> nat \<Rightarrow> int \<Rightarrow> int \<Rightarrow> bool" where
  "occ b t y x =
     list_ex (\<lambda>k. k \<noteq> t \<and> r (toonPos b ! k) = y \<and> c (toonPos b ! k) = x)
       [0..<length (toonPos b)]"

text \<open>
  The lambda \<open>try_move\<close>. The returned flag is both its result and the value it leaves
  in \<open>moved\<close> when it succeeds.
\<close>

definition try_move :: "nat \<Rightarrow> Pos \<Rightarrow> Board \<Rightarrow> Board \<times> bool" where
  "try_move t dest b =
     (if inBounds b (r dest) (c dest) \<and> c dest < finishCol b
         \<and> cell_at b (r dest) (c dest) \<noteq> CHR ''#'' \<and> \<not> occ b t (r dest) (c dest)
      then (b\<lparr>toonPos := (toonPos b)[t := dest],
              steps := (steps b)[t := steps b ! t + 1]\<rparr>, True)
      else (b, False))"

definition blocked :: "Board \<Rightarrow> nat \<Rightarrow> Pos \<Rightarrow> bool" where
  "blocked b t nxt =
     (\<not> (inBounds b (r nxt) (c nxt) \<and> c nxt < finishCol b)
      \<or> cell_at b (r nxt) (c nxt) = CHR ''#'' \<or> occ b t (r nxt) (c nxt))"

definition win_cond :: "Board \<Rightarrow> Pos \<Rightarrow> bool" where
  "win_cond b p = ((r p = r (flag b) \<and> c p = c (flag b)) \<or> c p \<ge> finishCol b - 1)"

text \<open>Lines 241-246: the win check at the end of the move block.\<close>

definition win_check :: "nat \<Rightarrow> Race \<Rightarrow> Race" where
  "win_check t s =
     (if \<not> gameOver s then
        (let p = toonPos (board s) ! t
         in if win_cond (board s) p then s\<lparr>winner := int t, gameOver := True\<rparr> else s)
      else s)"

text \<open>Lines 226-234: the jump of the Coyote; the result carries \<open>moved\<close>.\<close>

definition jump_part :: "Options \<Rightarrow> nat \<Rightarrow> Pos \<Rightarrow> real \<Rightarrow> Race \<Rightarrow> Race \<times> bool" where
  "jump_part opt t step ju s =
     (let b = board s; cur = toonPos b ! t;
          nxt = \<lparr>r = r cur + r step, c = c cur + c step\<rparr>
      in if blocked b t nxt \<and> t = COYOTE \<and> ju < coy_jump_chance opt then
           (let hop = \<lparr>r = r nxt + r step, c = c nxt + c step\<rparr>;
                (b', ok) = try_move t hop b
            in if ok then (s\<lparr>board := b', totalSteps := totalSteps s + 1\<rparr>, True)
               else (s, False))
         else (s, False))"

text \<open>
  Lines 236-238: the normal move to \<open>nxt\<close>, which was computed from the position at the
  start of the block.
\<close>

definition normal_part :: "nat \<Rightarrow> Pos \<Rightarrow> Race \<times> bool \<Rightarrow> Race \<times> bool" where
  "normal_part t nxt sm =
     (let (s, moved) = sm
      in if \<not> moved then
           (let (b', ok) = try_move t nxt (board s)
            in if ok then (s\<lparr>board := b', totalSteps := totalSteps s + 1\<rparr>, True)
               else (s, False))
         else (s, moved))"

text \<open>Lines 212-247: the block that moves toon \<open>t\<close> under \<open>board.mtx\<close>.\<close>

definition move_section :: "Options \<Rightarrow> nat \<Rightarrow> Pos \<Rightarrow> real \<Rightarrow> Race \<Rightarrow> Race \<times> bool" where
  "move_section opt t step ju s =
     (let cur = toonPos (board s) ! t;
          nxt = \<lparr>r = r cur + r step, c = c cur + c step\<rparr>;
          (s1, moved) = normal_part t nxt (jump_part opt t step ju s)
      in (win_check t s1, moved))"

text \<open>
  Lines 252-259: the scan for the nearest toon that is not frozen; \<open>clk k\<close> is the clock
  reading of the test of toon \<open>k\<close>. The result is \<open>(target, bestD)\<close>.
\<close>

definition scan_target :: "Options \<Rightarrow> Board \<Rightarrow> nat \<Rightarrow> (nat \<Rightarrow> int) \<Rightarrow> int \<times> int" where
  "scan_target opt b t clk =
     fold (\<lambda>k (target, bestD).
             if k \<noteq> t then
               (if clk k < frozen_until b ! k then (target, bestD)
                else (let d = \<bar>r (toonPos b ! k) - r (toonPos b ! t)\<bar>
                            + \<bar>c (toonPos b ! k) - c (toonPos b ! t)\<bar>
                      in if d < bestD then (int k, d) else (target, bestD)))
             else (target, bestD))
          [0..<nat (toons opt)] (-1, 1000000000)"

text \<open>Lines 253-267: the block of the shot under \<open>board.mtx\<close>.\<close>

definition shoot_locked :: "Options \<Rightarrow> nat \<Rightarrow> (nat \<Rightarrow> int) \<Rightarrow> int \<Rightarrow> Race \<Rightarrow> Race" where
  "shoot_locked opt t clk nowf s =
     (let b = board s; target = fst (scan_target opt b t clk)
      in if target \<noteq> -1 then
           s\<lparr>board := b\<lparr>frozen_until :=
                (frozen_until b)[nat target := nowf + milliseconds (sam_freeze_ms opt)]\<rparr>\<rparr>
         else s)"

text \<open>
  Lines 250-270. The detached thread that clears \<open>sam_on_cd\<close> after the cooldown is the
  separate event \<open>cooldown_over\<close>.
\<close>

definition shoot_section ::
  "Options \<Rightarrow> nat \<Rightarrow> real \<Rightarrow> (nat \<Rightarrow> int) \<Rightarrow> int \<Rightarrow> Race \<Rightarrow> Race" where
  "shoot_section opt t su clk nowf s =
     (if t = YOSEMITESAM \<and> \<not> gameOver s then
        (if \<not> sam_on_cd s \<and> su < sam_shoot_chance opt then
           (shoot_locked opt t clk nowf s)\<lparr>sam_on_cd := True\<rparr>
         else s)
      else s)"

definition cooldown_over :: "Race \<Rightarrow> Race" where
  "cooldown_over s = s\<lparr>sam_on_cd := False\<rparr>"

text \<open>Lines 275-286: the burst step under \<open>board.mtx\<close>.\<close>

definition burst_locked :: "nat \<Rightarrow> int \<Rightarrow> Race \<Rightarrow> Race" where
  "burst_locked t k s =
     (let b = board s; cur = toonPos b ! t; dir = toward (flag b) cur;
          step2 = (if \<bar>r dir\<bar> + \<bar>c dir\<bar> \<noteq> 0
                   then \<lparr>r = (if r dir \<noteq> 0 then r dir else 0),
                         c = (if r dir = 0 then c dir else 0)\<rparr>
                   else pick_step k);
          nxt = \<lparr>r = r cur + r step2, c = c cur + c step2\<rparr>
      in if inBounds b (r nxt) (c nxt) \<and> c nxt < finishCol b
            \<and> cell_at b (r nxt) (c nxt) \<noteq> CHR ''#'' \<and> \<not> occ b t (r nxt) (c nxt)
         then s\<lparr>board := b\<lparr>toonPos := (toonPos b)[t := nxt],
                              steps := (steps b)[t := steps b ! t + 1]\<rparr>,
                 totalSteps := totalSteps s + 1\<rparr>
         else s)"

text \<open>Lines 273-288.\<close>

definition burst_section :: "Options \<Rightarrow> nat \<Rightarrow> bool \<Rightarrow> real \<Rightarrow> int \<Rightarrow> Race \<Rightarrow> Race" where
  "burst_section opt t moved bu k s =
     (if t = ROADRUNNER \<and> moved \<and> \<not> gameOver s then
        (if bu < rr_burst_chance opt then burst_locked t k s else s)
      else s)"

text \<open>
  The body of the worker loop (lines 193-291), run without another thread in between.
  A frozen toon sleeps and goes back to the loop test. The block that proposes the step
  (lines 198-208) is a lock holding of its own, before the block that moves; it reads
  only the flag and the toon's own position, which no other thread writes, so the step is
  the same when it is computed from the state the move block starts in.
\<close>

definition worker_tick :: "Options \<Rightarrow> nat \<Rightarrow> Draws \<Rightarrow> Race \<Rightarrow> Race" where
  "worker_tick opt t d s =
     (if now_top d < frozen_until (board s) ! t then s
      else
        (let step = propose_step (board s) t (bias_u d) (axis d) (pick1 d);
             (s1, moved) = move_section opt t step (jump_u d) s;
             s2 = shoot_section opt t (shoot_u d) (scan_clk d) (shoot_now d) s1
         in burst_section opt t moved (burst_u d) (pick2 d) s2))"

text \<open>The test of the worker loop and of the wait loop of \<open>main\<close> (lines 192, 298).\<close>

definition loop_guard :: "Race \<Rightarrow> bool" where
  "loop_guard s = (\<not> gameOver s \<and> \<not> gStop s)"

text \<open>
  The worker loop of toon \<open>t\<close> alone, one element of the list for each iteration; the loop
  may run forever, so the list bounds the iterations that are looked at.
\<close>

fun worker_run :: "Options \<Rightarrow> nat \<Rightarrow> Draws list \<Rightarrow> Race \<Rightarrow> Race" where
  "worker_run opt t [] s = s"
| "worker_run opt t (d # ds) s =
     (if loop_guard s then worker_run opt t ds (worker_tick opt t d s) else s)"

section \<open>The threads together\<close>

text \<open>
  Every access of the workers to the positions, the step counts and the freeze times
  happens in a block that holds \<open>board.mtx\<close>, so each such block is one transition of
  the shared state; a store to an atomic outside a block is a transition of its own.
  A transition may be taken by any worker that exists, at any time and with any values of
  its local variables and draws: the order of the blocks inside one worker is not
  imposed, so every state the threads can reach is reachable here.
\<close>

inductive step :: "Options \<Rightarrow> Race \<Rightarrow> Race \<Rightarrow> bool" for opt :: Options where
  move: "t < nat (toons opt) \<Longrightarrow> step opt s (fst (move_section opt t stp ju s))"
| shoot: "YOSEMITESAM < nat (toons opt) \<Longrightarrow>
          step opt s (shoot_locked opt YOSEMITESAM clk nowf s)"
| cooldown: "step opt s (s\<lparr>sam_on_cd := v\<rparr>)"
| burst: "ROADRUNNER < nat (toons opt) \<Longrightarrow> step opt s (burst_locked ROADRUNNER k s)"
| stop: "step opt s (s\<lparr>gStop := True\<rparr>)"

inductive reachable :: "Options \<Rightarrow> Race \<Rightarrow> bool" for opt :: Options where
  start: "opt = parseArgs_clamp o0 \<Longrightarrow> draws_ok opt ds \<Longrightarrow> main_init opt ds = Some s
          \<Longrightarrow> reachable opt s"
| after: "reachable opt s \<Longrightarrow> step opt s s' \<Longrightarrow> reachable opt s'"

text \<open>
  The same transitions with the program order of the RoadRunner's loop, whose place is
  kept beside the shared state. Its move block is taken from the top of an iteration and
  leaves \<open>moved\<close>; the test of line 273 leads on to the burst block only when \<open>moved\<close>
  is set and \<open>gameOver\<close> is read as false (and the burst roll succeeds); otherwise, and
  after the burst block, the loop is back at its top. The blocks of the other threads are
  taken at any time.
\<close>

datatype rr_pc = AtTop | AfterMove bool | Armed

inductive ordered_step :: "Options \<Rightarrow> Race \<Rightarrow> rr_pc \<Rightarrow> Race \<Rightarrow> rr_pc \<Rightarrow> bool"
  for opt :: Options where
  move: "t < nat (toons opt) \<Longrightarrow> t \<noteq> ROADRUNNER \<Longrightarrow>
         ordered_step opt s pc (fst (move_section opt t stp ju s)) pc"
| rr_move: "ROADRUNNER < nat (toons opt) \<Longrightarrow>
         ordered_step opt s AtTop (fst (move_section opt ROADRUNNER stp ju s))
           (AfterMove (snd (move_section opt ROADRUNNER stp ju s)))"
| rr_arm: "\<not> gameOver s \<Longrightarrow> ordered_step opt s (AfterMove True) s Armed"
| rr_skip: "ordered_step opt s (AfterMove m) s AtTop"
| rr_burst: "ROADRUNNER < nat (toons opt) \<Longrightarrow>
         ordered_step opt s Armed (burst_locked ROADRUNNER k s) AtTop"
| shoot: "YOSEMITESAM < nat (toons opt) \<Longrightarrow>
         ordered_step opt s pc (shoot_locked opt YOSEMITESAM clk nowf s) pc"
| cooldown: "ordered_step opt s pc (s\<lparr>sam_on_cd := v\<rparr>) pc"
| stop: "ordered_step opt s pc (s\<lparr>gStop := True\<rparr>) pc"

inductive ordered_reachable :: "Options \<Rightarrow> Race \<Rightarrow> rr_pc \<Rightarrow> bool" for opt :: Options where
  start: "opt = parseArgs_clamp o0 \<Longrightarrow> draws_ok opt ds \<Longrightarrow> main_init opt ds = Some s
          \<Longrightarrow> ordered_reachable opt s AtTop"
| after: "ordered_reachable opt s pc \<Longrightarrow> ordered_step opt s pc s' pc'
          \<Longrightarrow> ordered_reachable opt s' pc'"

text \<open>
  While the game is on, a toon in the flag's column stands on the flag cell, and the
  RoadRunner, once its move block of the iteration is done, is not on a winning cell.
\<close>

definition on_course :: "Race \<Rightarrow> rr_pc \<Rightarrow> bool" where
  "on_course s pc =
     (gameOver s
      \<or> (list_all (\<lambda>p. c p \<noteq> c (flag (board s)) \<or> p = flag (board s)) (toonPos (board s))
         \<and> (pc = AtTop \<or> \<not> win_cond (board s) (toonPos (board s) ! ROADRUNNER))))"

text \<open>
  The runs of the threads during which toon \<open>t\<close> counts as frozen, from a state \<open>s\<close> in
  which \<open>t\<close> is at the top of its loop: every clock reading that \<open>t\<close> takes at the top of
  an iteration, and that YosemiteSam takes when it tests the freeze time of \<open>t\<close>, is
  before the freeze time \<open>t\<close> has in \<open>s\<close>. The other threads take their blocks in any
  order. An iteration of \<open>t\<close> that has passed the test of line 194 before \<open>t\<close> is
  shot is not such a run: its move and burst blocks are taken with the toon frozen.
\<close>

inductive frozen_run :: "Options \<Rightarrow> nat \<Rightarrow> Race \<Rightarrow> Race \<Rightarrow> bool"
  for opt :: Options and t :: nat and s :: Race where
  here: "frozen_run opt t s s"
| own: "frozen_run opt t s s' \<Longrightarrow> now_top d < frozen_until (board s) ! t \<Longrightarrow>
        frozen_run opt t s (worker_tick opt t d s')"
| other_move: "frozen_run opt t s s' \<Longrightarrow> k \<noteq> t \<Longrightarrow>
        frozen_run opt t s (fst (move_section opt k stp ju s'))"
| other_burst: "frozen_run opt t s s' \<Longrightarrow> ROADRUNNER \<noteq> t \<Longrightarrow>
        frozen_run opt t s (burst_locked ROADRUNNER j s')"
| shot: "frozen_run opt t s s' \<Longrightarrow> clk t < frozen_until (board s) ! t \<Longrightarrow>
        frozen_run opt t s (shoot_locked opt YOSEMITESAM clk nowf s')"
| cooldown: "frozen_run opt t s s' \<Longrightarrow> frozen_run opt t s (s'\<lparr>sam_on_cd := v\<rparr>)"
| stop: "frozen_run opt t s s' \<Longrightarrow> frozen_run opt t s (s'\<lparr>gStop := True\<rparr>)"

text \<open>Toon \<open>t\<close> has the same position, step count and freeze time on both boards.\<close>

definition same_toon :: "nat \<Rightarrow> Board \<Rightarrow> Board \<Rightarrow> bool" where
  "same_toon t b b' =
     (toonPos b' ! t = toonPos b ! t \<and> steps b' ! t = steps b ! t
      \<and> frozen_until b' ! t = frozen_until b ! t)"

text \<open>A cell a toon may stand on: inside the board, left of the finish column, no wall.\<close>

definition standable :: "Board \<Rightarrow> Pos \<Rightarrow> bool" where
  "standable b p =
     (inBounds b (r p) (c p) \<and> c p < finishCol b \<and> cell_at b (r p) (c p) \<noteq> CHR ''#'')"

definition toons_ok :: "Options \<Rightarrow> Board \<Rightarrow> bool" where
  "toons_ok opt b =
     (length (toonPos b) = nat (toons opt) \<and> distinct (toonPos b)
      \<and> list_all (standable b) (toonPos b))"

text \<open>A cell the start-up may put a toon on.\<close>

definition start_cell :: "Board \<Rightarrow> Pos \<Rightarrow> bool" where
  "start_cell b p =
     (0 \<le> r p \<and> r p < R b \<and> 0 \<le> c p \<and> c p \<le> C b - 3 \<and> cell_at b (r p) (c p) \<noteq> CHR ''#'')"

text \<open>The invariant of the shared state that the transitions keep.\<close>

definition race_ok :: "Options \<Rightarrow> Race \<Rightarrow> bool" where
  "race_ok opt s =
     (toons_ok opt (board s)
      \<and> length (steps (board s)) = nat (toons opt)
      \<and> length (frozen_until (board s)) = nat (toons opt)
      \<and> (gameOver s \<longleftrightarrow> 0 \<le> winner s) \<and> - 1 \<le> winner s \<and> winner s < toons opt)"

text \<open>Lines 304-308: the lines that \<open>main\<close> prints after the final board.\<close>

fun digits :: "nat \<Rightarrow> string" where
  "digits n =
     (if n < 10 then [''0123456789'' ! n]
      else digits (n div 10) @ [''0123456789'' ! (n mod 10)])"

definition to_string :: "int \<Rightarrow> string" where
  "to_string i = (if i < 0 then CHR ''-'' # digits (nat (- i)) else digits (nat i))"

definition final_summary :: "Options \<Rightarrow> Race \<Rightarrow> string list" where
  "final_summary opt s =
     (if winner s \<ge> 0 then
        [''=== Final Summary ===''] @
        map (\<lambda>t. TOON_NM ! t @ '' ('' @ [TOON_CH ! t] @ '') steps: ''
                  @ to_string (steps (board s) ! t))
          [0..<nat (toons opt)] @
        [''Winner: '' @ TOON_NM ! nat (winner s)]
      else [])"

text \<open>
  \<open>rebuild_grid\<close> (lines 113-120) writes every cell of the render buffer, so the buffer
  after it is a function of the board: the static cells, then the finish column, the
  flag, and the toons in the order of their indices.
\<close>

definition rebuild_grid :: "Board \<Rightarrow> string list" where
  "rebuild_grid b =
     (let g0 = map (\<lambda>y. map (\<lambda>x. cell b ! y ! x) [0..<nat (C b)]) [0..<nat (R b)];
          g1 = map (\<lambda>row. row[nat (finishCol b) := CHR ''|'']) g0;
          g2 = g1[nat (r (flag b)) := (g1 ! nat (r (flag b)))[nat (c (flag b)) := CHR ''F'']]
      in fold (\<lambda>t g. g[nat (r (toonPos b ! t)) :=
                          (g ! nat (r (toonPos b ! t)))[nat (c (toonPos b ! t)) := TOON_CH ! t]])
           [0..<length (toonPos b)] g2)"

text \<open>
  \<open>print_board\<close> (lines 122-132): the lines written to the console, the last one empty.
\<close>

definition print_board :: "Board \<Rightarrow> string list \<Rightarrow> int \<Rightarrow> string list" where
  "print_board b grid ts =
     [''+'' @ replicate (nat (C b)) CHR ''-'' @ ''+''] @
     map (\<lambda>y. ''|'' @ map (\<lambda>x. grid ! y ! x) [0..<nat (C b)] @ ''|'') [0..<nat (R b)] @
     [''+'' @ replicate (nat (C b)) CHR ''-'' @ ''+'', ''steps: '' @ to_string ts, []]"

text \<open>Lines 301-308: all that \<open>main\<close> prints once the workers are joined.\<close>

definition main_final :: "Options \<Rightarrow> Race \<Rightarrow> string list" where
  "main_final opt s =
     print_board (board s) (rebuild_grid (board s)) (totalSteps s) @ final_summary opt s"

section \<open>A concrete race\<close>

text \<open>
  Five rows, twenty columns, three toons; the draws put walls on (0,3), (1,7), (3,15)
  and the toons on (2,16), (3,16), (4,0). The flag is on (2,18), the finish column is 19.
\<close>

definition demo_opt :: Options where
  "demo_opt = parseArgs_clamp (default_Options\<lparr>rows := 5, cols := 20\<rparr>)"

definition demo_draws :: "(int \<times> int) list" where
  "demo_draws = [(0, 3), (1, 7), (3, 15), (3, 15), (2, 16), (2, 16), (3, 16), (4, 0)]"

definition demo_start :: Race where
  "demo_start =
     \<lparr>board =
        \<lparr>R = 5, C = 20,
         cell = [''...#................'', ''.......#............'',
                 ''....................'', ''...............#....'',
                 ''....................''],
         finishCol = 19, flag = \<lparr>r = 2, c = 18\<rparr>,
         toonPos = [\<lparr>r = 2, c = 16\<rparr>, \<lparr>r = 3, c = 16\<rparr>, \<lparr>r = 4, c = 0\<rparr>],
         frozen_until = [time_point_min, time_point_min, time_point_min],
         steps = [0, 0, 0]\<rparr>,
      gameOver = False, winner = - 1, totalSteps = 0, sam_on_cd = False, gStop = False\<rparr>"

text \<open>The same board with the RoadRunner alone and the smallest step cap.\<close>

definition solo_opt :: Options where
  "solo_opt =
     parseArgs_clamp (default_Options\<lparr>rows := 5, cols := 20, toons := 1, maxSteps := 100\<rparr>)"

definition solo_draws :: "(int \<times> int) list" where
  "solo_draws = [(0, 3), (1, 7), (3, 15), (4, 0)]"

text \<open>The race of the RoadRunner alone after \<open>n\<close> committed moves that left it on (4,0).\<close>

definition solo_at :: "int \<Rightarrow> Race" where
  "solo_at n =
     \<lparr>board =
        \<lparr>R = 5, C = 20,
         cell = [''...#................'', ''.......#............'',
                 ''....................'', ''...............#....'',
                 ''....................''],
         finishCol = 19, flag = \<lparr>r = 2, c = 18\<rparr>,
         toonPos = [\<lparr>r = 4, c = 0\<rparr>],
         frozen_until = [time_point_min],
         steps = [n]\<rparr>,
      gameOver = False, winner = - 1, totalSteps = n, sam_on_cd = False, gStop = False\<rparr>"

text \<open>A scan in which every test of a freeze time reads the same clock value.\<close>

definition const_clock :: "int \<Rightarrow> nat \<Rightarrow> int" where
  "const_clock v k = v"

text \<open>
  Draws of one iteration: the bias roll fails and \<open>pick_step\<close> draws index 4, the zero
  step; no ability roll succeeds.
\<close>

definition stay_draws :: Draws where
  "stay_draws =
     \<lparr>now_top = 0, bias_u = 0.9, axis = 0, pick1 = 4, jump_u = 1, shoot_u = 1,
      scan_clk = const_clock 0, shoot_now = 0, burst_u = 1, pick2 = 4\<rparr>"

text \<open>
  Draws of one iteration: the bias roll succeeds on the column axis and the burst roll
  succeeds.
\<close>

definition dash_draws :: Draws where
  "dash_draws =
     \<lparr>now_top = 0, bias_u = 0, axis = 1, pick1 = 4, jump_u = 1, shoot_u = 1,
      scan_clk = const_clock 0, shoot_now = 0, burst_u = 0, pick2 = 4\<rparr>"

text \<open>Draws of one iteration: the bias roll fails and \<open>pick_step\<close> draws the step left.\<close>

definition left_draws :: Draws where
  "left_draws =
     \<lparr>now_top = 0, bias_u = 0.9, axis = 0, pick1 = 2, jump_u = 1, shoot_u = 1,
      scan_clk = const_clock 0, shoot_now = 0, burst_u = 1, pick2 = 4\<rparr>"

text \<open>
  The concrete race with a cooldown of 100 ms and a freeze of 5000 ms. YosemiteSam shoots
  at clock reading 0 (the Coyote, the nearest toon) and, the cooldown over, at 200 ms (the
  RoadRunner): both other toons are frozen, until 5 s and 5.2 s.
\<close>

definition frost_opt :: Options where
  "frost_opt =
     parseArgs_clamp
       (default_Options\<lparr>rows := 5, cols := 20, sam_cooldown_ms := 100, sam_freeze_ms := 5000\<rparr>)"

definition demo_frozen :: Race where
  "demo_frozen =
     cooldown_over
       (shoot_section frost_opt YOSEMITESAM 0 (const_clock 200000000) 200000000
          (cooldown_over (shoot_section frost_opt YOSEMITESAM 0 (const_clock 0) 0 demo_start)))"

text \<open>
  The block that moves toon \<open>t\<close> in the concrete race, with the proposed step one cell to
  the right and a failed jump roll.
\<close>

definition go_right :: "nat \<Rightarrow> Race \<Rightarrow> Race" where
  "go_right t s = fst (move_section demo_opt t \<lparr>r = 0, c = 1\<rparr> 1 s)"


text \<open>
  The RoadRunner steps right from (2,16) and then bursts, block by block and as one
  iteration of its loop; both end with the RoadRunner on the flag.
\<close>

definition demo_burst :: Race where
  "demo_burst =
     burst_locked ROADRUNNER 4
       (fst (move_section demo_opt ROADRUNNER \<lparr>r = 0, c = 1\<rparr> 1 demo_start))"

definition demo_dash :: Race where
  "demo_dash = worker_tick demo_opt ROADRUNNER dash_draws demo_start"

text \<open>After that iteration of the RoadRunner, two iterations of the Coyote, each a step right.\<close>

definition demo_late :: Race where
  "demo_late =
     worker_tick demo_opt COYOTE dash_draws (worker_tick demo_opt COYOTE dash_draws demo_dash)"

text \<open>
  Two aborted runs with an iteration in flight. The RoadRunner alone is stopped after 100
  moves and its move block commits one more zero step. In the race of three the
  RoadRunner on (2,17) is stopped with no winner recorded and its move block steps onto
  the flag.
\<close>

definition solo_abort :: Race where
  "solo_abort =
     fst (move_section solo_opt 0 \<lparr>r = 0, c = 0\<rparr> 1 ((solo_at 100)\<lparr>gStop := True\<rparr>))"

definition demo_abort :: Race where
  "demo_abort = go_right 0 ((go_right 0 demo_start)\<lparr>gStop := True\<rparr>)"

section \<open>The invariant\<close>

lemma occ_iff: "occ b t y x \<longleftrightarrow> (\<exists>k<length (toonPos b). k \<noteq> t \<and> toonPos b ! k = \<lparr>r = y, c = x\<rparr>)"
  by (auto simp: occ_def list_ex_iff)

lemma distinct_upd: "distinct xs \<Longrightarrow> (\<forall>k<length xs. k \<noteq> t \<longrightarrow> xs ! k \<noteq> d) \<Longrightarrow> distinct (xs[t := d])"
proof (cases "t < length xs")
  case True
  assume d: "distinct xs" and n: "\<forall>k<length xs. k \<noteq> t \<longrightarrow> xs ! k \<noteq> d"
  show ?thesis
    unfolding distinct_conv_nth
  proof (intro allI impI)
    fix i j
    assume "i < length (xs[t := d])" "j < length (xs[t := d])" "i \<noteq> j"
    then show "xs[t := d] ! i \<noteq> xs[t := d] ! j"
      using d n True by (cases "i = t"; cases "j = t") (auto simp: distinct_conv_nth)
  qed
next
  case False
  assume "distinct xs"
  then show ?thesis using False by (simp add: not_less list_update_beyond)
qed

lemma sprinkle_walls_frame:
  "sprinkle_walls n ds b = Some (b', ds') \<Longrightarrow>
     toonPos b' = toonPos b \<and> R b' = R b \<and> C b' = C b \<and> finishCol b' = finishCol b
     \<and> flag b' = flag b \<and> steps b' = steps b \<and> frozen_until b' = frozen_until b
     \<and> (list_all P ds \<longrightarrow> list_all P ds')"
  by (induction n ds b rule: sprinkle_walls.induct) (auto split: if_splits)

lemma find_free_Some:
  "find_free b used ds = Some ((y, x), ds') \<Longrightarrow>
     (y, x) \<in> set ds \<and> \<not> used ! nat y ! nat x \<and> cell_at b y x \<noteq> CHR ''#''
     \<and> (list_all P ds \<longrightarrow> list_all P ds')"
  by (induction b used ds rule: find_free.induct) (auto split: if_splits)

lemma start_cell_upd [simp]: "start_cell (b\<lparr>toonPos := ps\<rparr>) p = start_cell b p"
  by (simp add: start_cell_def cell_at_def)

lemma place_toons_inv:
  assumes "place_toons ts used ds b = Some b'"
    and "list_all (\<lambda>(y, x). 0 \<le> y \<and> y < R b \<and> 0 \<le> x \<and> x \<le> C b - 3) ds"
    and "length used = nat (R b)"
    and "\<forall>i<nat (R b). length (used ! i) = nat (C b)"
    and "distinct ts"
    and "\<forall>t\<in>set ts. t < length (toonPos b)"
    and "\<forall>k<length (toonPos b). k \<notin> set ts \<longrightarrow>
           start_cell b (toonPos b ! k)
           \<and> used ! nat (r (toonPos b ! k)) ! nat (c (toonPos b ! k))"
    and "\<forall>j<length (toonPos b). \<forall>k<length (toonPos b).
           j \<notin> set ts \<longrightarrow> k \<notin> set ts \<longrightarrow> j \<noteq> k \<longrightarrow> toonPos b ! j \<noteq> toonPos b ! k"
  shows "length (toonPos b') = length (toonPos b) \<and> distinct (toonPos b')
         \<and> (\<forall>k<length (toonPos b'). start_cell b' (toonPos b' ! k))
         \<and> R b' = R b \<and> C b' = C b \<and> finishCol b' = finishCol b \<and> flag b' = flag b
         \<and> steps b' = steps b \<and> frozen_until b' = frozen_until b"
  using assms
proof (induction ts arbitrary: used ds b)
  case Nil
  then show ?case by (auto simp: distinct_conv_nth)
next
  case (Cons t ts)
  from Cons.prems(1) obtain y x ds' where
    ff: "find_free b used ds = Some ((y, x), ds')"
    and rest: "place_toons ts (used[nat y := (used ! nat y)[nat x := True]]) ds'
                 (b\<lparr>toonPos := (toonPos b)[t := \<lparr>r = y, c = x\<rparr>]\<rparr>) = Some b'"
    by (auto split: option.splits)
  let ?P = "\<lambda>(y, x). 0 \<le> y \<and> y < R b \<and> 0 \<le> x \<and> x \<le> C b - 3"
  let ?used = "used[nat y := (used ! nat y)[nat x := True]]"
  let ?b = "b\<lparr>toonPos := (toonPos b)[t := \<lparr>r = y, c = x\<rparr>]\<rparr>"
  from find_free_Some [OF ff, of ?P] Cons.prems(2)
  have mem: "(y, x) \<in> set ds" and free: "\<not> used ! nat y ! nat x"
    and nowall: "cell_at b y x \<noteq> CHR ''#''" and ds': "list_all ?P ds'"
    by auto
  from mem Cons.prems(2) have rng: "0 \<le> y" "y < R b" "0 \<le> x" "x \<le> C b - 3"
    by (auto simp: list_all_iff)
  have t: "t < length (toonPos b)" "t \<notin> set ts" "distinct ts"
    using Cons.prems(5,6) by auto
  have ylen: "nat y < length used" using rng Cons.prems(3) by auto
  have xlen: "nat x < length (used ! nat y)" using rng Cons.prems(4) by auto
  have mark: "?used ! nat y ! nat x" using ylen xlen by simp
  have mono: "\<And>i j. used ! i ! j \<Longrightarrow> ?used ! i ! j"
    by (metis free list_update_beyond not_le_imp_less nth_list_update_eq
        nth_list_update_neq)
  have p1: "list_all (\<lambda>(y, x). 0 \<le> y \<and> y < R ?b \<and> 0 \<le> x \<and> x \<le> C ?b - 3) ds'"
    using ds' by simp
  have p2: "length ?used = nat (R ?b)" using Cons.prems(3) by simp
  have p3: "\<forall>i<nat (R ?b). length (?used ! i) = nat (C ?b)"
    using Cons.prems(3,4) ylen by (auto simp: nth_list_update)
  have p5: "\<forall>t\<in>set ts. t < length (toonPos ?b)" using Cons.prems(6) by simp
  have p6: "\<forall>k<length (toonPos ?b). k \<notin> set ts \<longrightarrow>
              start_cell ?b (toonPos ?b ! k)
              \<and> ?used ! nat (r (toonPos ?b ! k)) ! nat (c (toonPos ?b ! k))"
  proof (intro allI impI)
    fix k assume k: "k < length (toonPos ?b)" "k \<notin> set ts"
    show "start_cell ?b (toonPos ?b ! k)
          \<and> ?used ! nat (r (toonPos ?b ! k)) ! nat (c (toonPos ?b ! k))"
    proof (cases "k = t")
      case True
      then show ?thesis using t rng nowall mark by (simp add: start_cell_def cell_at_def)
    next
      case False
      then have "k \<notin> set (t # ts)" using k by simp
      with Cons.prems(7) k have "start_cell b (toonPos b ! k)
           \<and> used ! nat (r (toonPos b ! k)) ! nat (c (toonPos b ! k))" by simp
      then show ?thesis using False mono by simp
    qed
  qed
  have p7: "\<forall>j<length (toonPos ?b). \<forall>k<length (toonPos ?b).
           j \<notin> set ts \<longrightarrow> k \<notin> set ts \<longrightarrow> j \<noteq> k \<longrightarrow> toonPos ?b ! j \<noteq> toonPos ?b ! k"
  proof (intro allI impI)
    fix j k assume jk: "j < length (toonPos ?b)" "k < length (toonPos ?b)"
      "j \<notin> set ts" "k \<notin> set ts" "j \<noteq> k"
    have old: "\<And>i. i < length (toonPos b) \<Longrightarrow> i \<notin> set ts \<Longrightarrow> i \<noteq> t \<Longrightarrow>
                 toonPos b ! i \<noteq> \<lparr>r = y, c = x\<rparr>"
    proof
      fix i assume i: "i < length (toonPos b)" "i \<notin> set ts" "i \<noteq> t"
        and eq: "toonPos b ! i = \<lparr>r = y, c = x\<rparr>"
      from i Cons.prems(7) have "used ! nat (r (toonPos b ! i)) ! nat (c (toonPos b ! i))"
        by simp
      with eq free show False by simp
    qed
    show "toonPos ?b ! j \<noteq> toonPos ?b ! k"
    proof (cases "j = t")
      case True
      then show ?thesis using jk old [of k] t by (auto simp: nth_list_update)
    next
      case jt: False
      show ?thesis
      proof (cases "k = t")
        case True
        then show ?thesis using jk old [of j] t jt by (auto simp: nth_list_update)
      next
        case False
        then show ?thesis using jk jt Cons.prems(8) by (simp add: nth_list_update)
      qed
    qed
  qed
  from Cons.IH [OF rest p1 p2 p3 t(3) p5 p6 p7] show ?case by simp
qed


lemma list_all_upd: "list_all P xs \<Longrightarrow> P d \<Longrightarrow> list_all P (xs[t := d])"
  using set_update_subset_insert [of xs t d] by (auto simp: list_all_iff)

lemma standable_frame:
  "R b' = R b \<Longrightarrow> C b' = C b \<Longrightarrow> cell b' = cell b \<Longrightarrow> finishCol b' = finishCol b \<Longrightarrow>
     standable b' = standable b"
  by (auto simp: standable_def fun_eq_iff inBounds_def cell_at_def)

lemma enter_ok:
  assumes "toons_ok opt b" and "standable b dest" and "\<not> occ b t (r dest) (c dest)"
  shows "toons_ok opt (b\<lparr>toonPos := (toonPos b)[t := dest], steps := st\<rparr>)"
proof -
  let ?b = "b\<lparr>toonPos := (toonPos b)[t := dest], steps := st\<rparr>"
  have "\<forall>k<length (toonPos b). k \<noteq> t \<longrightarrow> toonPos b ! k \<noteq> dest"
    using assms(3) by (auto simp: occ_iff)
  then have "distinct ((toonPos b)[t := dest])"
    using assms(1) by (simp add: toons_ok_def distinct_upd)
  moreover have "standable ?b = standable b"
    by (rule standable_frame) simp_all
  ultimately show ?thesis
    using assms(1,2) by (simp add: toons_ok_def list_all_upd)
qed

lemma try_move_ok: "toons_ok opt b \<Longrightarrow> toons_ok opt (fst (try_move t dest b))"
  by (simp add: try_move_def enter_ok standable_def)

lemma try_move_lengths:
  "length (steps (fst (try_move t dest b))) = length (steps b)
   \<and> frozen_until (fst (try_move t dest b)) = frozen_until b"
  by (simp add: try_move_def)

lemma jump_part_frame:
  "gameOver (fst (jump_part opt t stp ju s)) = gameOver s
   \<and> winner (fst (jump_part opt t stp ju s)) = winner s
   \<and> gStop (fst (jump_part opt t stp ju s)) = gStop s
   \<and> sam_on_cd (fst (jump_part opt t stp ju s)) = sam_on_cd s"
  by (simp add: jump_part_def Let_def split: prod.splits)

lemma jump_part_board:
  "board (fst (jump_part opt t stp ju s)) = board s
   \<or> (\<exists>d. board (fst (jump_part opt t stp ju s)) = fst (try_move t d (board s)))"
proof (cases "blocked (board s) t
      \<lparr>r = r (toonPos (board s) ! t) + r stp, c = c (toonPos (board s) ! t) + c stp\<rparr>
      \<and> t = COYOTE \<and> ju < coy_jump_chance opt")
  case True
  let ?hop = "\<lparr>r = r (toonPos (board s) ! t) + r stp + r stp,
              c = c (toonPos (board s) ! t) + c stp + c stp\<rparr>"
  from True have "board (fst (jump_part opt t stp ju s)) = board s
      \<or> board (fst (jump_part opt t stp ju s)) = fst (try_move t ?hop (board s))"
    by (simp add: jump_part_def Let_def split: prod.splits)
  then show ?thesis by blast
next
  case False
  then show ?thesis by (auto simp: jump_part_def Let_def)
qed

lemma normal_part_frame:
  "gameOver (fst (normal_part t nxt sm)) = gameOver (fst sm)
   \<and> winner (fst (normal_part t nxt sm)) = winner (fst sm)
   \<and> gStop (fst (normal_part t nxt sm)) = gStop (fst sm)
   \<and> sam_on_cd (fst (normal_part t nxt sm)) = sam_on_cd (fst sm)"
  by (simp add: normal_part_def Let_def split: prod.splits)

lemma normal_part_board:
  "board (fst (normal_part t nxt sm)) = board (fst sm)
   \<or> board (fst (normal_part t nxt sm)) = fst (try_move t nxt (board (fst sm)))"
  by (cases sm) (simp add: normal_part_def Let_def split: prod.splits)

lemma race_ok_board:
  "race_ok opt s \<Longrightarrow> gameOver s' = gameOver s \<Longrightarrow> winner s' = winner s \<Longrightarrow>
     board s' = fst (try_move t d (board s)) \<Longrightarrow> race_ok opt s'"
  by (simp add: race_ok_def try_move_ok try_move_lengths)

lemma race_ok_same:
  "race_ok opt s \<Longrightarrow> gameOver s' = gameOver s \<Longrightarrow> winner s' = winner s \<Longrightarrow>
     board s' = board s \<Longrightarrow> race_ok opt s'"
  by (simp add: race_ok_def)

lemma jump_part_ok: "race_ok opt s \<Longrightarrow> race_ok opt (fst (jump_part opt t stp ju s))"
  using jump_part_board [of opt t stp ju s] jump_part_frame [of opt t stp ju s]
  by (auto intro: race_ok_board race_ok_same)

lemma normal_part_ok: "race_ok opt (fst sm) \<Longrightarrow> race_ok opt (fst (normal_part t nxt sm))"
  using normal_part_board [of t nxt sm] normal_part_frame [of t nxt sm]
  by (auto intro: race_ok_board race_ok_same)

lemma win_check_ok: "race_ok opt s \<Longrightarrow> t < nat (toons opt) \<Longrightarrow> race_ok opt (win_check t s)"
  by (auto simp: win_check_def race_ok_def Let_def)

lemma move_section_eq:
  "fst (move_section opt t stp ju s) =
     win_check t (fst (normal_part t
        \<lparr>r = r (toonPos (board s) ! t) + r stp, c = c (toonPos (board s) ! t) + c stp\<rparr>
        (jump_part opt t stp ju s)))"
  by (simp add: move_section_def Let_def split: prod.splits)

lemma move_section_ok:
  "race_ok opt s \<Longrightarrow> t < nat (toons opt) \<Longrightarrow> race_ok opt (fst (move_section opt t stp ju s))"
  by (simp add: move_section_eq win_check_ok normal_part_ok jump_part_ok)

lemma shoot_locked_ok:
  assumes "race_ok opt s"
  shows "race_ok opt (shoot_locked opt t clk nowf s)"
proof -
  have "\<And>f. standable ((board s)\<lparr>frozen_until := f\<rparr>) = standable (board s)"
    by (rule standable_frame) simp_all
  then show ?thesis
    using assms unfolding shoot_locked_def Let_def race_ok_def toons_ok_def by simp
qed

lemma burst_locked_ok:
  assumes "race_ok opt s"
  shows "race_ok opt (burst_locked t k s)"
proof -
  have "\<And>nxt st. standable (board s) nxt \<Longrightarrow> \<not> occ (board s) t (r nxt) (c nxt) \<Longrightarrow>
          toons_ok opt ((board s)\<lparr>toonPos := (toonPos (board s))[t := nxt], steps := st\<rparr>)"
    using assms enter_ok by (simp add: race_ok_def)
  then show ?thesis
    using assms unfolding burst_locked_def Let_def race_ok_def
    by (simp add: standable_def)
qed

lemma step_ok: "step opt s s' \<Longrightarrow> race_ok opt s \<Longrightarrow> race_ok opt s'"
proof (induction rule: step.induct)
  case (move t s stp ju)
  then show ?case by (simp add: move_section_ok)
next
  case (shoot s clk nowf)
  then show ?case by (simp add: shoot_locked_ok)
next
  case (cooldown s v)
  then show ?case by (simp add: race_ok_def)
next
  case (burst s k)
  then show ?case by (simp add: burst_locked_ok)
next
  case (stop s)
  then show ?case by (simp add: race_ok_def)
qed

lemma used_init_dims:
  "length (used_init b) = nat (R b) \<and> (\<forall>i<nat (R b). length (used_init b ! i) = nat (C b))"
  by (cases "nat (r (flag b)) < nat (R b)")
     (auto simp: used_init_def nth_list_update list_update_beyond not_less)

lemma main_init_facts:
  assumes "opt = parseArgs_clamp o0" and "draws_ok opt ds" and "main_init opt ds = Some s"
  shows "race_ok opt s \<and> c (flag (board s)) = finishCol (board s) - 1
         \<and> list_all (\<lambda>p. c p < c (flag (board s))) (toonPos (board s))"
proof -
  let ?b0 = "Board_init (rows opt) (cols opt) (toons opt)"
  from assms(3) obtain b1 ds1 b2 where
    w: "sprinkle_walls (nat ((R ?b0 * C ?b0) div 30)) ds ?b0 = Some (b1, ds1)"
    and p: "place_toons [0..<nat (toons opt)] (used_init b1) ds1 b1 = Some b2"
    and s: "s = \<lparr>board = b2, gameOver = False, winner = -1, totalSteps = 0,
                 sam_on_cd = False, gStop = False\<rparr>"
    by (auto simp: main_init_def Let_def split: option.splits)
  let ?P = "\<lambda>(y, x). 0 \<le> y \<and> y \<le> rows opt - 1 \<and> 0 \<le> x \<and> x \<le> cols opt - 3"
  have b0: "R ?b0 = rows opt" "C ?b0 = cols opt" "finishCol ?b0 = cols opt - 1"
    "length (toonPos ?b0) = nat (toons opt)" "length (steps ?b0) = nat (toons opt)"
    "length (frozen_until ?b0) = nat (toons opt)" "c (flag ?b0) = cols opt - 2"
    by (simp_all add: Board_init_def)
  from sprinkle_walls_frame [OF w, of ?P] assms(2)
  have b1: "toonPos b1 = toonPos ?b0" "R b1 = rows opt" "C b1 = cols opt"
    "finishCol b1 = cols opt - 1" "list_all ?P ds1" "c (flag b1) = cols opt - 2"
    using b0 by (auto simp: draws_ok_def)
  have fr: "steps b1 = steps ?b0" "frozen_until b1 = frozen_until ?b0"
    using sprinkle_walls_frame [OF w, of ?P] by simp_all
  have q1: "list_all (\<lambda>(y, x). 0 \<le> y \<and> y < R b1 \<and> 0 \<le> x \<and> x \<le> C b1 - 3) ds1"
    using b1 by (auto simp: list_all_iff)
  have q5: "\<forall>t\<in>set [0..<nat (toons opt)]. t < length (toonPos b1)"
    using b0 b1 by simp
  have q6: "\<forall>k<length (toonPos b1). k \<notin> set [0..<nat (toons opt)] \<longrightarrow>
              start_cell b1 (toonPos b1 ! k)
              \<and> used_init b1 ! nat (r (toonPos b1 ! k)) ! nat (c (toonPos b1 ! k))"
    using b0 b1 by simp
  have q7: "\<forall>j<length (toonPos b1). \<forall>k<length (toonPos b1).
              j \<notin> set [0..<nat (toons opt)] \<longrightarrow> k \<notin> set [0..<nat (toons opt)] \<longrightarrow>
              j \<noteq> k \<longrightarrow> toonPos b1 ! j \<noteq> toonPos b1 ! k"
    using b0 b1 by simp
  from place_toons_inv [OF p q1 conjunct1 [OF used_init_dims] conjunct2 [OF used_init_dims]
      distinct_upt q5 q6 q7]
  have b2: "length (toonPos b2) = nat (toons opt)" "distinct (toonPos b2)"
    "\<forall>k<length (toonPos b2). start_cell b2 (toonPos b2 ! k)"
    "R b2 = rows opt" "C b2 = cols opt" "finishCol b2 = cols opt - 1"
    "length (steps b2) = nat (toons opt)" "length (frozen_until b2) = nat (toons opt)"
    "c (flag b2) = cols opt - 2"
    using b0 b1 fr by simp_all
  have "list_all (standable b2) (toonPos b2)"
    using b2 by (auto simp: list_all_length start_cell_def standable_def inBounds_def)
  moreover have "1 \<le> toons opt"
    using assms(1) by (simp add: parseArgs_clamp_def)
  moreover have "list_all (\<lambda>p. c p < c (flag b2)) (toonPos b2)"
    using b2 by (auto simp: list_all_length start_cell_def)
  ultimately show ?thesis
    using b2 s by (simp add: race_ok_def toons_ok_def)
qed

lemma main_init_ok:
  assumes "opt = parseArgs_clamp o0" and "draws_ok opt ds" and "main_init opt ds = Some s"
  shows "race_ok opt s"
  using main_init_facts [OF assms] by simp

lemma reachable_ok: "reachable opt s \<Longrightarrow> race_ok opt s"
  by (induction rule: reachable.induct) (auto intro: main_init_ok step_ok)

lemma demo_reachable: "reachable demo_opt demo_start"
proof (rule reachable.start)
  show "demo_opt = parseArgs_clamp demo_opt"
    by (simp add: demo_opt_def parseArgs_clamp_def default_Options_def)
  show "draws_ok demo_opt demo_draws"
    by (simp add: demo_opt_def demo_draws_def draws_ok_def parseArgs_clamp_def default_Options_def)
  show "main_init demo_opt demo_draws = Some demo_start"
    by code_simp
qed



section \<open>The claims\<close>

subsection \<open>No two toons on one cell\<close>

text \<open>
  C7. In every reachable state, from the starting positions through every committed
  normal move, jump and burst step, the toons stand on pairwise different cells: the
  list of positions has one entry for each toon and no entry twice.
\<close>

theorem no_two_toons_share_cell:
  "reachable opt s \<Longrightarrow>
     length (toonPos (board s)) = nat (toons opt) \<and> distinct (toonPos (board s))"
  using reachable_ok [of opt s] by (simp add: race_ok_def toons_ok_def)

theorem no_two_toons_share_cell_witness:
  "reachable demo_opt (fst (move_section demo_opt 1 \<lparr>r = - 1, c = 0\<rparr> 1 demo_start))
   \<and> length (toonPos (board (fst (move_section demo_opt 1 \<lparr>r = - 1, c = 0\<rparr> 1 demo_start)))) = 3
   \<and> distinct (toonPos (board (fst (move_section demo_opt 1 \<lparr>r = - 1, c = 0\<rparr> 1 demo_start))))
   \<and> toonPos (board (fst (move_section demo_opt 1 \<lparr>r = - 1, c = 0\<rparr> 1 demo_start)))
       = toonPos (board demo_start)"
proof -
  have t: "1 < nat (toons demo_opt)"
    by (simp add: demo_opt_def parseArgs_clamp_def default_Options_def)
  have re: "reachable demo_opt (fst (move_section demo_opt 1 \<lparr>r = - 1, c = 0\<rparr> 1 demo_start))"
    by (rule reachable.after [OF demo_reachable step.move [OF t]])
  have ev: "toonPos (board (fst (move_section demo_opt 1 \<lparr>r = - 1, c = 0\<rparr> 1 demo_start)))
       = toonPos (board demo_start)"
    by code_simp
  have n: "nat (toons demo_opt) = 3"
    by (simp add: demo_opt_def parseArgs_clamp_def default_Options_def)
  show ?thesis
    using no_two_toons_share_cell [OF re] re ev n by simp
qed

subsection \<open>The winner\<close>

lemma win_check_board: "board (win_check t s) = board s"
  by (simp add: win_check_def Let_def)

lemma move_section_flags:
  "(let s1 = fst (move_section opt t stp ju s)
    in if gameOver s then gameOver s1 \<and> winner s1 = winner s
       else if win_cond (board s1) (toonPos (board s1) ! t)
            then gameOver s1 \<and> winner s1 = int t
            else \<not> gameOver s1 \<and> winner s1 = winner s)"
proof -
  let ?s0 = "fst (normal_part t
        \<lparr>r = r (toonPos (board s) ! t) + r stp, c = c (toonPos (board s) ! t) + c stp\<rparr>
        (jump_part opt t stp ju s))"
  have f: "gameOver ?s0 = gameOver s" "winner ?s0 = winner s"
    using normal_part_frame [of t _ "jump_part opt t stp ju s"]
      jump_part_frame [of opt t stp ju s] by simp_all
  have "fst (move_section opt t stp ju s) = win_check t ?s0"
    by (rule move_section_eq)
  then show ?thesis
    using f by (simp add: Let_def win_check_def)
qed

lemma step_keeps_winner:
  "step opt s s' \<Longrightarrow> gameOver s \<Longrightarrow> gameOver s' \<and> winner s' = winner s"
proof (induction rule: step.induct)
  case (move t s stp ju)
  then show ?case using move_section_flags [of opt t stp ju s] by (simp add: Let_def)
next
  case (shoot s clk nowf)
  then show ?case by (simp add: shoot_locked_def Let_def)
next
  case (cooldown s v)
  then show ?case by simp
next
  case (burst s k)
  then show ?case by (simp add: burst_locked_def Let_def)
next
  case (stop s)
  then show ?case by simp
qed

lemma run_keeps_winner:
  "(step opt)\<^sup>*\<^sup>* s s' \<Longrightarrow> gameOver s \<Longrightarrow> gameOver s' \<and> winner s' = winner s"
  by (induction rule: rtranclp_induct) (auto dest: step_keeps_winner)

text \<open>
  What holds of the winner. In every reachable state the game-over flag is set exactly
  when a winner is recorded; the block that moves a toon (lines 212-247, one holding of
  \<open>board.mtx\<close>) tests the flag and sets winner and flag together: it changes neither
  when the flag is already set, it records its own toon when the flag is clear and the
  toon stands on a winning cell, and it leaves both clear otherwise. Along every run of
  the threads a set flag stays set and the recorded winner stays the same.
\<close>

lemma winner_kept:
  assumes "reachable opt s" and "(step opt)\<^sup>*\<^sup>* s s'"
  shows "(gameOver s \<longleftrightarrow> winner s \<noteq> - 1)
       \<and> (gameOver s \<longrightarrow> gameOver s' \<and> winner s' = winner s)
       \<and> (let s1 = fst (move_section opt t stp ju s)
          in if gameOver s then gameOver s1 \<and> winner s1 = winner s
             else if win_cond (board s1) (toonPos (board s1) ! t)
                  then gameOver s1 \<and> winner s1 = int t
                  else \<not> gameOver s1 \<and> winner s1 = - 1)"
proof -
  from reachable_ok [OF assms(1)] have inv: "gameOver s \<longleftrightarrow> winner s \<noteq> - 1"
    by (auto simp: race_ok_def)
  show ?thesis
    using inv run_keeps_winner [OF assms(2)] move_section_flags [of opt t stp ju s]
    by (auto simp: Let_def)
qed

lemma toons_demo: "nat (toons demo_opt) = 3"
  by (simp add: demo_opt_def parseArgs_clamp_def default_Options_def)

lemma step_go_right: "t < 3 \<Longrightarrow> step demo_opt s (go_right t s)"
  unfolding go_right_def by (rule step.move) (simp add: toons_demo)

text \<open>
  C1. The winner is set at most once and a set flag stays set, but the first toon whose
  committed position change satisfies the win condition is not always the one that is
  recorded: the burst block of the RoadRunner has no win check. In the concrete race the
  RoadRunner steps to (2,17) and bursts onto the flag (2,18); it is the first toon on a
  winning cell, and neither the flag nor the winner is set. The Coyote then steps to
  (3,17) and to (3,18), and the win check of its move block records the Coyote as the
  winner while the RoadRunner still stands on the flag.
\<close>

theorem first_on_flag_not_recorded:
  "toonPos (board demo_dash) ! ROADRUNNER = flag (board demo_dash)
   \<and> win_cond (board demo_dash) (toonPos (board demo_dash) ! ROADRUNNER)
   \<and> \<not> win_cond (board demo_dash) (toonPos (board demo_dash) ! COYOTE)
   \<and> \<not> gameOver demo_dash \<and> winner demo_dash = - 1
   \<and> \<not> gameOver (worker_tick demo_opt COYOTE dash_draws demo_dash)
   \<and> toonPos (board demo_late) ! ROADRUNNER = flag (board demo_late)
   \<and> toonPos (board demo_late) ! COYOTE = \<lparr>r = 3, c = 18\<rparr>
   \<and> gameOver demo_late \<and> winner demo_late = int COYOTE"
  by code_simp

subsection \<open>Validation of a move\<close>

lemma blocked_iff: "blocked b t d \<longleftrightarrow> \<not> (standable b d \<and> \<not> occ b t (r d) (c d))"
  by (auto simp: blocked_def standable_def)

lemma try_move_blocked:
  "try_move t d b =
     (if blocked b t d then (b, False)
      else (b\<lparr>toonPos := (toonPos b)[t := d], steps := (steps b)[t := steps b ! t + 1]\<rparr>, True))"
  by (auto simp: try_move_def blocked_def)

lemma Pos_eta: "\<lparr>r = r d, c = c d\<rparr> = (d :: Pos)"
  by (cases d) simp

lemma occ_dest:
  "occ b t (r d) (c d) \<longleftrightarrow> (\<exists>k<length (toonPos b). k \<noteq> t \<and> toonPos b ! k = d)"
  by (simp add: occ_iff Pos_eta)

text \<open>
  C5. Applying a step to a destination succeeds exactly when the destination is in
  bounds, its column is strictly less than the finish column, it is no wall cell and no
  other toon stands on it. On success the toon's position is the destination and its step
  count is one more, and nothing of any other toon changes; on failure the board is
  unchanged.
\<close>

theorem try_move_validates:
  assumes "t < length (toonPos b)" and "t < length (steps b)"
  shows "(let valid = (0 \<le> r dest \<and> r dest < R b \<and> 0 \<le> c dest \<and> c dest < C b
                       \<and> c dest < finishCol b
                       \<and> cell b ! nat (r dest) ! nat (c dest) \<noteq> CHR ''#''
                       \<and> \<not> (\<exists>k<length (toonPos b). k \<noteq> t \<and> toonPos b ! k = dest));
              (b', ok) = try_move t dest b
          in ok = valid
             \<and> (if valid
                then toonPos b' ! t = dest \<and> steps b' ! t = steps b ! t + 1
                     \<and> (\<forall>k. k \<noteq> t \<longrightarrow> toonPos b' ! k = toonPos b ! k
                                       \<and> steps b' ! k = steps b ! k)
                     \<and> frozen_until b' = frozen_until b \<and> cell b' = cell b
                     \<and> length (toonPos b') = length (toonPos b)
                else b' = b))"
  using assms
  by (simp add: try_move_def Let_def occ_dest inBounds_def cell_at_def)

theorem try_move_validates_witness:
  "(0::nat) < length (toonPos (board demo_start)) \<and> (0::nat) < length (steps (board demo_start))
   \<and> snd (try_move 0 \<lparr>r = 2, c = 17\<rparr> (board demo_start))
   \<and> toonPos (fst (try_move 0 \<lparr>r = 2, c = 17\<rparr> (board demo_start))) ! 0 = \<lparr>r = 2, c = 17\<rparr>
   \<and> steps (fst (try_move 0 \<lparr>r = 2, c = 17\<rparr> (board demo_start))) ! 0 = 1
   \<and> try_move 0 \<lparr>r = 3, c = 16\<rparr> (board demo_start) = (board demo_start, False)"
proof -
  have h: "(0::nat) < length (toonPos (board demo_start))"
    "(0::nat) < length (steps (board demo_start))"
    by (simp_all add: demo_start_def)
  have ok: "snd (try_move 0 \<lparr>r = 2, c = 17\<rparr> (board demo_start))"
    and st: "steps (board demo_start) ! 0 = 0"
    and no: "\<not> snd (try_move 0 \<lparr>r = 3, c = 16\<rparr> (board demo_start))"
    by code_simp+
  show ?thesis
    using try_move_validates [OF h, of "\<lparr>r = 2, c = 17\<rparr>"]
      try_move_validates [OF h, of "\<lparr>r = 3, c = 16\<rparr>"] h ok st no
    by (auto simp: Let_def split: prod.splits if_splits)
qed

subsection \<open>The zero step\<close>

lemma own_cell_free:
  assumes "race_ok opt s" and "t < nat (toons opt)"
  shows "\<not> blocked (board s) t (toonPos (board s) ! t)"
proof -
  let ?ps = "toonPos (board s)"
  from assms have len: "t < length ?ps" and d: "distinct ?ps"
    and st: "list_all (standable (board s)) ?ps"
    by (simp_all add: race_ok_def toons_ok_def)
  from st len have "standable (board s) (?ps ! t)"
    by (simp add: list_all_length)
  moreover have "\<not> occ (board s) t (r (?ps ! t)) (c (?ps ! t))"
    using d len by (auto simp: occ_dest distinct_conv_nth)
  ultimately show ?thesis by (simp add: blocked_iff)
qed

lemma move_section_stay:
  assumes "\<not> blocked (board s) t (toonPos (board s) ! t)"
  shows "move_section opt t \<lparr>r = 0, c = 0\<rparr> ju s =
     (win_check t (s\<lparr>board := (board s)\<lparr>toonPos := (toonPos (board s))[t := toonPos (board s) ! t],
                           steps := (steps (board s))[t := steps (board s) ! t + 1]\<rparr>,
                      totalSteps := totalSteps s + 1\<rparr>), True)"
  using assms
  by (simp add: move_section_def jump_part_def normal_part_def Let_def Pos_eta try_move_blocked)

text \<open>
  C10. The zero step is the fifth outcome of \<open>pick_step\<close>. In every reachable state the
  cell a toon stands on passes the validation of a move (the occupancy test leaves the
  toon itself out), so the block that moves the toon with the zero step commits: the
  positions are unchanged, the toon's step count and the global step counter are each one
  more.
\<close>

theorem stay_commits:
  assumes "reachable opt s" and "t < nat (toons opt)"
  shows "pick_step 4 = \<lparr>r = 0, c = 0\<rparr>
       \<and> \<not> blocked (board s) t (toonPos (board s) ! t)
       \<and> (let (s', moved) = move_section opt t \<lparr>r = 0, c = 0\<rparr> ju s
          in moved \<and> toonPos (board s') = toonPos (board s)
             \<and> steps (board s') ! t = steps (board s) ! t + 1
             \<and> steps (board s') = (steps (board s))[t := steps (board s) ! t + 1]
             \<and> totalSteps s' = totalSteps s + 1)"
proof -
  have ok: "race_ok opt s" by (rule reachable_ok [OF assms(1)])
  have free: "\<not> blocked (board s) t (toonPos (board s) ! t)"
    by (rule own_cell_free [OF ok assms(2)])
  have len: "t < length (steps (board s))"
    using ok assms(2) by (simp add: race_ok_def)
  have "pick_step 4 = \<lparr>r = 0, c = 0\<rparr>"
    by (simp add: pick_step_def dirs_def)
  then show ?thesis
    using free len by (simp add: move_section_stay win_check_def Let_def)
qed

theorem stay_commits_witness:
  "reachable demo_opt demo_start \<and> 1 < nat (toons demo_opt)
   \<and> snd (move_section demo_opt 1 (pick_step 4) 0 demo_start)
   \<and> toonPos (board (fst (move_section demo_opt 1 (pick_step 4) 0 demo_start)))
       = toonPos (board demo_start)
   \<and> steps (board (fst (move_section demo_opt 1 (pick_step 4) 0 demo_start))) = [0, 1, 0]
   \<and> totalSteps (fst (move_section demo_opt 1 (pick_step 4) 0 demo_start)) = 1"
proof -
  have t: "1 < nat (toons demo_opt)" by (simp add: toons_demo)
  have ev: "steps (board demo_start) = [0, 0, 0]" "totalSteps demo_start = 0"
    by (simp_all add: demo_start_def)
  show ?thesis
    using stay_commits [OF demo_reachable t, of 0] demo_reachable t ev
    by (simp split: prod.splits)
qed

subsection \<open>The jump of the Coyote\<close>

text \<open>
  C8. When the Coyote's proposed move is blocked and the jump roll succeeds, the jump
  destination is the cell two steps from the current position in the proposed direction,
  and it is validated by the rule of a normal move. If the destination is valid, the block
  commits the jump alone: the Coyote stands on the jump destination, its step count and
  the global step counter are each one more, and no normal move is made. If it is not,
  nothing moves.
\<close>

theorem coyote_jump:
  assumes "t = COYOTE" and "t < length (toonPos (board s))" and "t < length (steps (board s))"
    and "blocked (board s) t
           \<lparr>r = r (toonPos (board s) ! t) + r stp, c = c (toonPos (board s) ! t) + c stp\<rparr>"
    and "ju < coy_jump_chance opt"
  shows "(let cur = toonPos (board s) ! t;
              hop = \<lparr>r = r cur + 2 * r stp, c = c cur + 2 * c stp\<rparr>;
              (s', moved) = move_section opt t stp ju s
          in snd (try_move t hop (board s)) = (\<not> blocked (board s) t hop)
             \<and> (if \<not> blocked (board s) t hop
                then moved \<and> toonPos (board s') = (toonPos (board s))[t := hop]
                     \<and> toonPos (board s') ! t = hop
                     \<and> steps (board s') = (steps (board s))[t := steps (board s) ! t + 1]
                     \<and> steps (board s') ! t = steps (board s) ! t + 1
                     \<and> totalSteps s' = totalSteps s + 1
                else \<not> moved \<and> board s' = board s \<and> totalSteps s' = totalSteps s))"
proof -
  let ?cur = "toonPos (board s) ! t"
  let ?nxt = "\<lparr>r = r ?cur + r stp, c = c ?cur + c stp\<rparr>"
  let ?hop = "\<lparr>r = r ?cur + 2 * r stp, c = c ?cur + 2 * c stp\<rparr>"
  have hop: "\<lparr>r = r ?nxt + r stp, c = c ?nxt + c stp\<rparr> = ?hop"
    by simp
  show ?thesis
  proof (cases "blocked (board s) t ?hop")
    case True
    have j: "jump_part opt t stp ju s = (s, False)"
      using assms(1,4,5) True unfolding jump_part_def Let_def hop
      by (simp add: try_move_blocked)
    have "move_section opt t stp ju s = (win_check t s, False)"
      using assms(4) unfolding move_section_def Let_def j
      by (simp add: normal_part_def try_move_blocked)
    then show ?thesis
      using True by (simp add: Let_def try_move_blocked win_check_def)
  next
    case False
    let ?s1 = "s\<lparr>board := (board s)\<lparr>toonPos := (toonPos (board s))[t := ?hop],
                   steps := (steps (board s))[t := steps (board s) ! t + 1]\<rparr>,
                 totalSteps := totalSteps s + 1\<rparr>"
    have j: "jump_part opt t stp ju s = (?s1, True)"
      using assms(1,4,5) False unfolding jump_part_def Let_def hop
      by (simp add: try_move_blocked)
    have "move_section opt t stp ju s = (win_check t ?s1, True)"
      unfolding move_section_def Let_def j by (simp add: normal_part_def)
    then show ?thesis
      using False assms(2,3) by (simp add: Let_def try_move_blocked win_check_def)
  qed
qed

theorem coyote_jump_witness:
  "COYOTE < length (toonPos (board demo_start)) \<and> COYOTE < length (steps (board demo_start))
   \<and> blocked (board demo_start) COYOTE \<lparr>r = 3, c = 15\<rparr>
   \<and> (0::real) < coy_jump_chance demo_opt
   \<and> snd (move_section demo_opt COYOTE \<lparr>r = 0, c = - 1\<rparr> 0 demo_start)
   \<and> toonPos (board (fst (move_section demo_opt COYOTE \<lparr>r = 0, c = - 1\<rparr> 0 demo_start)))
       = [\<lparr>r = 2, c = 16\<rparr>, \<lparr>r = 3, c = 14\<rparr>, \<lparr>r = 4, c = 0\<rparr>]
   \<and> steps (board (fst (move_section demo_opt COYOTE \<lparr>r = 0, c = - 1\<rparr> 0 demo_start)))
       = [0, 1, 0]
   \<and> totalSteps (fst (move_section demo_opt COYOTE \<lparr>r = 0, c = - 1\<rparr> 0 demo_start)) = 1"
proof -
  have h: "COYOTE < length (toonPos (board demo_start))"
    "COYOTE < length (steps (board demo_start))"
    by (simp_all add: demo_start_def COYOTE_def)
  have cur: "toonPos (board demo_start) ! COYOTE = \<lparr>r = 3, c = 16\<rparr>"
    by (simp add: demo_start_def COYOTE_def)
  have b: "blocked (board demo_start) COYOTE \<lparr>r = 3, c = 15\<rparr>"
    and nb: "\<not> blocked (board demo_start) COYOTE \<lparr>r = 3, c = 14\<rparr>"
    by code_simp+
  have ju: "(0::real) < coy_jump_chance demo_opt"
    by (simp add: demo_opt_def parseArgs_clamp_def default_Options_def)
  have ev: "toonPos (board demo_start) = [\<lparr>r = 2, c = 16\<rparr>, \<lparr>r = 3, c = 16\<rparr>, \<lparr>r = 4, c = 0\<rparr>]"
    "steps (board demo_start) = [0, 0, 0]" "totalSteps demo_start = 0"
    by (simp_all add: demo_start_def)
  have b': "blocked (board demo_start) COYOTE
     \<lparr>r = r (toonPos (board demo_start) ! COYOTE) + r \<lparr>r = 0, c = - 1\<rparr>,
        c = c (toonPos (board demo_start) ! COYOTE) + c \<lparr>r = 0, c = - 1\<rparr>\<rparr>"
    using b by (simp add: cur)
  show ?thesis
    using coyote_jump [OF refl h b' ju] h b ju nb
    by (simp add: cur ev Let_def COYOTE_def split: prod.splits)
qed

subsection \<open>The freeze gate\<close>

lemma same_toon_refl: "same_toon t b b"
  by (simp add: same_toon_def)

lemma same_toon_trans: "same_toon t b b1 \<Longrightarrow> same_toon t b1 b2 \<Longrightarrow> same_toon t b b2"
  by (simp add: same_toon_def)

lemma try_move_other: "k \<noteq> t \<Longrightarrow> same_toon t b (fst (try_move k d b))"
  by (simp add: try_move_def same_toon_def)

lemma move_section_other:
  assumes "k \<noteq> t"
  shows "same_toon t (board s) (board (fst (move_section opt k stp ju s)))"
proof -
  let ?j = "jump_part opt k stp ju s"
  let ?nxt = "\<lparr>r = r (toonPos (board s) ! k) + r stp, c = c (toonPos (board s) ! k) + c stp\<rparr>"
  let ?n = "normal_part k ?nxt ?j"
  have 1: "same_toon t (board s) (board (fst ?j))"
    using jump_part_board [of opt k stp ju s] assms
    by (auto simp: same_toon_refl try_move_other)
  have 2: "same_toon t (board (fst ?j)) (board (fst ?n))"
    using normal_part_board [of k ?nxt ?j] assms
    by (auto simp: same_toon_refl try_move_other)
  show ?thesis
    using same_toon_trans [OF 1 2] by (simp add: move_section_eq win_check_board)
qed









subsection \<open>A shot without a target\<close>

lemma scan_fold_none:
  assumes "\<forall>k\<in>set ks. k \<noteq> t \<longrightarrow> clk k < frozen_until b ! k"
  shows "fold (\<lambda>k (target, bestD).
             if k \<noteq> t then
               (if clk k < frozen_until b ! k then (target, bestD)
                else (let d = \<bar>r (toonPos b ! k) - r (toonPos b ! t)\<bar>
                            + \<bar>c (toonPos b ! k) - c (toonPos b ! t)\<bar>
                      in if d < bestD then (int k, d) else (target, bestD)))
             else (target, bestD)) ks acc = acc"
  using assms by (induction ks arbitrary: acc) (auto split: prod.splits)

lemma scan_target_none:
  "\<forall>k<nat (toons opt). k \<noteq> t \<longrightarrow> clk k < frozen_until b ! k \<Longrightarrow>
     scan_target opt b t clk = (- 1, 1000000000)"
  unfolding scan_target_def by (rule scan_fold_none) simp

text \<open>
  C3, as the code has it. When YosemiteSam's shot triggers (the game is not over, the
  cooldown flag is clear, the roll succeeds) and every other toon is frozen at the clock
  reading of its test, no freeze time is changed, but the cooldown flag IS set; while the
  flag stays set, the next attempt does nothing, whatever its roll.
\<close>

theorem shot_without_target_starts_cooldown:
  assumes "\<not> gameOver s" and "\<not> sam_on_cd s" and "su < sam_shoot_chance opt"
    and "\<forall>k<nat (toons opt). k \<noteq> YOSEMITESAM \<longrightarrow> clk k < frozen_until (board s) ! k"
  shows "shoot_section opt YOSEMITESAM su clk nowf s = s\<lparr>sam_on_cd := True\<rparr>
       \<and> board (shoot_section opt YOSEMITESAM su clk nowf s) = board s
       \<and> sam_on_cd (shoot_section opt YOSEMITESAM su clk nowf s)
       \<and> shoot_section opt YOSEMITESAM su' clk' nowf'
            (shoot_section opt YOSEMITESAM su clk nowf s)
          = shoot_section opt YOSEMITESAM su clk nowf s"
proof -
  have "shoot_locked opt YOSEMITESAM clk nowf s = s"
    using scan_target_none [OF assms(4)] by (simp add: shoot_locked_def)
  then have "shoot_section opt YOSEMITESAM su clk nowf s = s\<lparr>sam_on_cd := True\<rparr>"
    using assms(1-3) by (simp add: shoot_section_def)
  then show ?thesis by (simp add: shoot_section_def)
qed

theorem shot_without_target_starts_cooldown_witness:
  "\<not> gameOver demo_frozen \<and> \<not> sam_on_cd demo_frozen \<and> (0::real) < sam_shoot_chance frost_opt
   \<and> nat (toons frost_opt) = 3
   \<and> const_clock 400000000 ROADRUNNER < frozen_until (board demo_frozen) ! ROADRUNNER
   \<and> const_clock 400000000 COYOTE < frozen_until (board demo_frozen) ! COYOTE
   \<and> shoot_section frost_opt YOSEMITESAM 0 (const_clock 400000000) 400000000 demo_frozen
       = demo_frozen\<lparr>sam_on_cd := True\<rparr>"
proof -
  have h: "\<not> gameOver demo_frozen" "\<not> sam_on_cd demo_frozen"
    by code_simp+
  have su: "(0::real) < sam_shoot_chance frost_opt"
    by (simp add: frost_opt_def parseArgs_clamp_def default_Options_def double_0_15_def)
  have n: "nat (toons frost_opt) = 3"
    by (simp add: frost_opt_def parseArgs_clamp_def default_Options_def)
  have f: "const_clock 400000000 ROADRUNNER < frozen_until (board demo_frozen) ! ROADRUNNER"
    "const_clock 400000000 COYOTE < frozen_until (board demo_frozen) ! COYOTE"
    by code_simp+
  have fr: "\<forall>k<nat (toons frost_opt). k \<noteq> YOSEMITESAM \<longrightarrow>
         const_clock 400000000 k < frozen_until (board demo_frozen) ! k"
    using f by (auto simp: n YOSEMITESAM_def ROADRUNNER_def COYOTE_def less_Suc_eq
        numeral_3_eq_3)
  show ?thesis
    using shot_without_target_starts_cooldown
            [where clk = "const_clock 400000000" and nowf = 400000000, OF h su fr] h su n f
    by simp
qed

text \<open>
  The claim C3 says that the cooldown is not started. In the concrete race with the
  Coyote frozen until 5 s and the RoadRunner until 5.2 s, the shot triggers at 400 ms with
  no eligible target: no freeze time changes, and the cooldown flag is set.
\<close>

theorem cooldown_not_started_counterexample:
  "frozen_until (board demo_frozen) = [5200000000, 5000000000, time_point_min]
   \<and> \<not> gameOver demo_frozen \<and> \<not> sam_on_cd demo_frozen
   \<and> (0::real) < sam_shoot_chance frost_opt
   \<and> (400000000::int) < frozen_until (board demo_frozen) ! ROADRUNNER
   \<and> (400000000::int) < frozen_until (board demo_frozen) ! COYOTE
   \<and> frozen_until (board (shoot_section frost_opt YOSEMITESAM 0 (const_clock 400000000)
        400000000 demo_frozen))
       = frozen_until (board demo_frozen)
   \<and> sam_on_cd (shoot_section frost_opt YOSEMITESAM 0 (const_clock 400000000) 400000000
        demo_frozen)"
  by code_simp

subsection \<open>The proposed step\<close>

lemma toward_sgn: "toward g cur = \<lparr>r = sgn (r g - r cur), c = sgn (c g - c cur)\<rparr>"
  by (simp add: toward_def sgn_if)

lemma try_move_geom:
  "flag (fst (try_move t d b)) = flag b \<and> finishCol (fst (try_move t d b)) = finishCol b"
  by (simp add: try_move_def)

lemma move_section_geom:
  "flag (board (fst (move_section opt t stp ju s))) = flag (board s)
   \<and> finishCol (board (fst (move_section opt t stp ju s))) = finishCol (board s)"
proof -
  let ?j = "jump_part opt t stp ju s"
  let ?nxt = "\<lparr>r = r (toonPos (board s) ! t) + r stp, c = c (toonPos (board s) ! t) + c stp\<rparr>"
  let ?n = "normal_part t ?nxt ?j"
  have 1: "flag (board (fst ?j)) = flag (board s)
           \<and> finishCol (board (fst ?j)) = finishCol (board s)"
    using jump_part_board [of opt t stp ju s] by (auto simp: try_move_geom)
  have 2: "flag (board (fst ?n)) = flag (board (fst ?j))
           \<and> finishCol (board (fst ?n)) = finishCol (board (fst ?j))"
    using normal_part_board [of t ?nxt ?j] by (auto simp: try_move_geom)
  show ?thesis
    using 1 2 by (simp add: move_section_eq win_check_board)
qed

lemma step_geom:
  "step opt s s' \<Longrightarrow>
     flag (board s') = flag (board s) \<and> finishCol (board s') = finishCol (board s)"
proof (induction rule: step.induct)
  case (move t s stp ju)
  then show ?case by (simp add: move_section_geom)
next
  case (shoot s clk nowf)
  then show ?case by (simp add: shoot_locked_def Let_def)
next
  case (cooldown s v)
  then show ?case by simp
next
  case (burst s k)
  then show ?case by (simp add: burst_locked_def Let_def)
next
  case (stop s)
  then show ?case by simp
qed

lemma reachable_flag_col:
  "reachable opt s \<Longrightarrow> c (flag (board s)) = finishCol (board s) - 1"
proof (induction rule: reachable.induct)
  case (start o0 ds s)
  then show ?case using main_init_facts [of opt o0 ds s] by simp
next
  case (after s s')
  then show ?case using step_geom [of opt s s'] by simp
qed

lemma ordered_step_is_step:
  "ordered_step opt s pc s' pc' \<Longrightarrow> s' = s \<or> step opt s s'"
  by (induction rule: ordered_step.induct) (auto intro: step.intros)

lemma ordered_reachable_is_reachable:
  "ordered_reachable opt s pc \<Longrightarrow> reachable opt s"
proof (induction rule: ordered_reachable.induct)
  case (start o0 ds s)
  then show ?case by (rule reachable.start)
next
  case (after s pc s' pc')
  then show ?case using ordered_step_is_step [of opt s pc s' pc'] by (auto intro: reachable.after)
qed

lemma cols_nth:
  "list_all P xs \<longleftrightarrow> (\<forall>k<length xs. P (xs ! k))"
  by (simp add: list_all_length)

lemma move_keeps_course:
  assumes ok: "race_ok opt s" and t: "t < nat (toons opt)"
    and fc: "c (flag (board s)) = finishCol (board s) - 1"
    and live: "\<not> gameOver (fst (move_section opt t stp ju s))"
    and cols: "gameOver s \<or>
      list_all (\<lambda>p. c p \<noteq> c (flag (board s)) \<or> p = flag (board s)) (toonPos (board s))"
  shows "list_all (\<lambda>p. c p \<noteq> c (flag (board (fst (move_section opt t stp ju s))))
                      \<or> p = flag (board (fst (move_section opt t stp ju s))))
           (toonPos (board (fst (move_section opt t stp ju s))))
         \<and> \<not> win_cond (board (fst (move_section opt t stp ju s)))
               (toonPos (board (fst (move_section opt t stp ju s))) ! t)"
proof -
  let ?s1 = "fst (move_section opt t stp ju s)"
  have fl: "\<not> gameOver s"
    and nw: "\<not> win_cond (board ?s1) (toonPos (board ?s1) ! t)"
    using move_section_flags [of opt t stp ju s] live by (auto simp: Let_def split: if_splits)
  have g: "flag (board ?s1) = flag (board s)" "finishCol (board ?s1) = finishCol (board s)"
    using move_section_geom [of opt t stp ju s] by simp_all
  have ok1: "race_ok opt ?s1" by (rule move_section_ok [OF ok t])
  have len: "length (toonPos (board ?s1)) = length (toonPos (board s))"
    using ok ok1 by (simp add: race_ok_def toons_ok_def)
  have old: "\<forall>k<length (toonPos (board s)).
      c (toonPos (board s) ! k) \<noteq> c (flag (board s)) \<or> toonPos (board s) ! k = flag (board s)"
    using cols fl by (simp add: cols_nth)
  have "\<forall>k<length (toonPos (board ?s1)).
      c (toonPos (board ?s1) ! k) \<noteq> c (flag (board ?s1))
      \<or> toonPos (board ?s1) ! k = flag (board ?s1)"
  proof (intro allI impI)
    fix k assume k: "k < length (toonPos (board ?s1))"
    show "c (toonPos (board ?s1) ! k) \<noteq> c (flag (board ?s1))
          \<or> toonPos (board ?s1) ! k = flag (board ?s1)"
    proof (cases "k = t")
      case True
      then show ?thesis using nw fc g by (auto simp: win_cond_def)
    next
      case False
      then have "toonPos (board ?s1) ! k = toonPos (board s) ! k"
        using move_section_other [of t k s opt stp ju] by (simp add: same_toon_def)
      then show ?thesis using old k len g by simp
    qed
  qed
  then show ?thesis using nw by (simp add: cols_nth)
qed

lemma burst_keeps_course:
  assumes fc: "c (flag (board s)) = finishCol (board s) - 1"
    and nw: "\<not> win_cond (board s) (toonPos (board s) ! t)"
    and cols: "list_all (\<lambda>p. c p \<noteq> c (flag (board s)) \<or> p = flag (board s))
                 (toonPos (board s))"
  shows "list_all (\<lambda>p. c p \<noteq> c (flag (board (burst_locked t k s)))
                      \<or> p = flag (board (burst_locked t k s)))
           (toonPos (board (burst_locked t k s)))"
proof -
  let ?b = "board s"
  let ?cur = "toonPos ?b ! t"
  let ?g = "flag ?b"
  have lt: "c ?cur < c ?g" and ne: "\<not> (r ?cur = r ?g \<and> c ?cur = c ?g)"
    using nw fc by (auto simp: win_cond_def)
  have new: "\<And>nxt. nxt = \<lparr>r = r ?cur + (if r ?g \<noteq> r ?cur then sgn (r ?g - r ?cur) else 0),
                               c = c ?cur + (if r ?g = r ?cur then sgn (c ?g - c ?cur) else 0)\<rparr>
        \<Longrightarrow> c nxt \<noteq> c ?g \<or> nxt = ?g"
    using lt by (cases ?g) (auto simp: sgn_if)
  show ?thesis
    using cols new lt ne
    by (auto simp: burst_locked_def Let_def toward_sgn sgn_if intro!: list_all_upd)
qed

lemma ordered_step_course:
  assumes "ordered_step opt s pc s' pc'" and "reachable opt s" and "on_course s pc"
  shows "on_course s' pc'"
  using assms
proof (induction rule: ordered_step.induct)
  case (move t s pc stp ju)
  let ?s1 = "fst (move_section opt t stp ju s)"
  have ok: "race_ok opt s" by (rule reachable_ok [OF move.prems(1)])
  have fc: "c (flag (board s)) = finishCol (board s) - 1"
    by (rule reachable_flag_col [OF move.prems(1)])
  show ?case
  proof (cases "gameOver ?s1")
    case True
    then show ?thesis by (simp add: on_course_def)
  next
    case False
    then have live: "\<not> gameOver s"
      using move_section_flags [of opt t stp ju s] by (auto simp: Let_def split: if_splits)
    have cols: "gameOver s \<or>
      list_all (\<lambda>p. c p \<noteq> c (flag (board s)) \<or> p = flag (board s)) (toonPos (board s))"
      using move.prems(2) by (auto simp: on_course_def)
    have rr: "toonPos (board ?s1) ! ROADRUNNER = toonPos (board s) ! ROADRUNNER"
      using move_section_other [of t ROADRUNNER s opt stp ju] move.hyps(2)
      by (simp add: same_toon_def)
    have wc: "win_cond (board ?s1) = win_cond (board s)"
      using move_section_geom [of opt t stp ju s] by (simp add: win_cond_def fun_eq_iff)
    show ?thesis
      using move_keeps_course [OF ok move.hyps(1) fc False cols] move.prems(2) live False rr wc
      by (auto simp: on_course_def)
  qed
next
  case (rr_move s stp ju)
  let ?s1 = "fst (move_section opt ROADRUNNER stp ju s)"
  have ok: "race_ok opt s" by (rule reachable_ok [OF rr_move.prems(1)])
  have fc: "c (flag (board s)) = finishCol (board s) - 1"
    by (rule reachable_flag_col [OF rr_move.prems(1)])
  show ?case
  proof (cases "gameOver ?s1")
    case True
    then show ?thesis by (simp add: on_course_def)
  next
    case False
    have cols: "gameOver s \<or>
      list_all (\<lambda>p. c p \<noteq> c (flag (board s)) \<or> p = flag (board s)) (toonPos (board s))"
      using rr_move.prems(2) by (auto simp: on_course_def)
    show ?thesis
      using move_keeps_course [OF ok rr_move.hyps fc False cols] False
      by (simp add: on_course_def)
  qed
next
  case (rr_arm s)
  then show ?case by (simp add: on_course_def)
next
  case (rr_skip s m)
  then show ?case by (auto simp: on_course_def)
next
  case (rr_burst s k)
  have fc: "c (flag (board s)) = finishCol (board s) - 1"
    by (rule reachable_flag_col [OF rr_burst.prems(1)])
  have go: "gameOver (burst_locked ROADRUNNER k s) = gameOver s"
    by (simp add: burst_locked_def Let_def)
  show ?case
  proof (cases "gameOver s")
    case True
    then show ?thesis using go by (simp add: on_course_def)
  next
    case False
    then have nw: "\<not> win_cond (board s) (toonPos (board s) ! ROADRUNNER)"
      and cols: "list_all (\<lambda>p. c p \<noteq> c (flag (board s)) \<or> p = flag (board s))
                   (toonPos (board s))"
      using rr_burst.prems(2) by (auto simp: on_course_def)
    show ?thesis
      using burst_keeps_course [OF fc nw cols] by (simp add: on_course_def)
  qed
next
  case (shoot s pc clk nowf)
  then show ?case by (auto simp: on_course_def shoot_locked_def Let_def win_cond_def)
next
  case (cooldown s pc v)
  then show ?case by (auto simp: on_course_def win_cond_def)
next
  case (stop s pc)
  then show ?case by (auto simp: on_course_def win_cond_def)
qed

lemma ordered_reachable_course: "ordered_reachable opt s pc \<Longrightarrow> on_course s pc"
proof (induction rule: ordered_reachable.induct)
  case (start o0 ds s)
  have "list_all (\<lambda>p. c p < c (flag (board s))) (toonPos (board s))"
    using main_init_facts [OF start] by blast
  then have "list_all (\<lambda>p. c p \<noteq> c (flag (board s)) \<or> p = flag (board s)) (toonPos (board s))"
    by (auto simp: list_all_iff)
  then show ?case by (simp add: on_course_def)
next
  case (after s pc s' pc')
  then show ?case
    using ordered_step_course ordered_reachable_is_reachable by blast
qed

lemma propose_step_table:
  "propose_step b t u coin k =
     (let cur = toonPos b ! t; g = flag b
      in if u < double_0_70 then
           (if coin = 0 then
              (if r g \<noteq> r cur then \<lparr>r = sgn (r g - r cur), c = 0\<rparr>
               else if c g \<noteq> c cur then \<lparr>r = 0, c = sgn (c g - c cur)\<rparr>
               else pick_step k)
            else
              (if c g \<noteq> c cur then \<lparr>r = 0, c = sgn (c g - c cur)\<rparr>
               else pick_step k))
         else pick_step k)"
  by (simp add: propose_step_def toward_sgn Let_def sgn_if)

text \<open>
  C6. A worker proposes a step in an iteration whose loop test has read \<open>gameOver\<close> as
  false, from the toon's own position, which no other thread writes: the step is proposed
  from the position the toon has in a reachable state with the game on. In such a state
  no toon stands in the flag's column off the flag's row (the one place where the chain
  of lines 204-206 would not fall back to the row axis), and the proposed step follows the
  biased rule: with the bias roll below 0.70 and the toon not aligned on both axes, the
  drawn axis (0 the row, 1 the column) gives one step along that axis toward the flag, or
  along the other axis when the drawn axis is aligned; otherwise the step is the uniform
  pick, which maps the five draws 0..4 to the four cardinal steps and the zero step, each
  once. The odds (70%, even, one in five) are those of the distributions of the roll, the
  axis and the index.
\<close>

theorem propose_step_rule:
  assumes "ordered_reachable opt s pc" and "\<not> gameOver s" and "t < nat (toons opt)"
  shows "propose_step (board s) t u coin k =
     (let cur = toonPos (board s) ! t; g = flag (board s);
          along_row = \<lparr>r = sgn (r g - r cur), c = 0\<rparr>;
          along_col = \<lparr>r = 0, c = sgn (c g - c cur)\<rparr>
      in if u < double_0_70 \<and> \<not> (r cur = r g \<and> c cur = c g) then
           (if coin = 0 then (if r cur \<noteq> r g then along_row else along_col)
            else (if c cur \<noteq> c g then along_col else along_row))
         else pick_step k)
   \<and> map pick_step [0, 1, 2, 3, 4]
       = [\<lparr>r = - 1, c = 0\<rparr>, \<lparr>r = 1, c = 0\<rparr>, \<lparr>r = 0, c = - 1\<rparr>, \<lparr>r = 0, c = 1\<rparr>,
          \<lparr>r = 0, c = 0\<rparr>]
   \<and> distinct (map pick_step [0, 1, 2, 3, 4])"
proof -
  have len: "t < length (toonPos (board s))"
    using reachable_ok [OF ordered_reachable_is_reachable [OF assms(1)]] assms(3)
    by (simp add: race_ok_def toons_ok_def)
  have "list_all (\<lambda>p. c p \<noteq> c (flag (board s)) \<or> p = flag (board s)) (toonPos (board s))"
    using ordered_reachable_course [OF assms(1)] assms(2) by (simp add: on_course_def)
  then have "c (toonPos (board s) ! t) \<noteq> c (flag (board s))
             \<or> toonPos (board s) ! t = flag (board s)"
    using len by (simp add: list_all_length)
  then show ?thesis
    by (auto simp: propose_step_table Let_def pick_step_def dirs_def)
qed

lemma demo_ordered: "ordered_reachable demo_opt demo_start AtTop"
proof (rule ordered_reachable.start)
  show "demo_opt = parseArgs_clamp demo_opt"
    by (simp add: demo_opt_def parseArgs_clamp_def default_Options_def)
  show "draws_ok demo_opt demo_draws"
    by (simp add: demo_opt_def demo_draws_def draws_ok_def parseArgs_clamp_def default_Options_def)
  show "main_init demo_opt demo_draws = Some demo_start"
    by code_simp
qed

theorem propose_step_rule_witness:
  "ordered_reachable demo_opt demo_burst AtTop \<and> \<not> gameOver demo_burst
   \<and> ROADRUNNER < nat (toons demo_opt) \<and> COYOTE < nat (toons demo_opt)
   \<and> toonPos (board demo_burst) ! ROADRUNNER = flag (board demo_burst)
   \<and> propose_step (board demo_burst) ROADRUNNER 0 1 4 = pick_step 4
   \<and> toonPos (board demo_burst) ! COYOTE = \<lparr>r = 3, c = 16\<rparr>
   \<and> flag (board demo_burst) = \<lparr>r = 2, c = 18\<rparr>
   \<and> propose_step (board demo_burst) COYOTE 0 0 4 = \<lparr>r = - 1, c = 0\<rparr>
   \<and> propose_step (board demo_burst) COYOTE 0 1 4 = \<lparr>r = 0, c = 1\<rparr>
   \<and> propose_step (board demo_burst) COYOTE double_0_70 1 3 = pick_step 3"
proof -
  let ?s1 = "fst (move_section demo_opt ROADRUNNER \<lparr>r = 0, c = 1\<rparr> 1 demo_start)"
  have n: "ROADRUNNER < nat (toons demo_opt)" "COYOTE < nat (toons demo_opt)"
    by (simp_all add: toons_demo ROADRUNNER_def COYOTE_def)
  have m: "snd (move_section demo_opt ROADRUNNER \<lparr>r = 0, c = 1\<rparr> 1 demo_start) = True"
    and g1: "\<not> gameOver ?s1"
    and g2: "\<not> gameOver demo_burst"
    by code_simp+
  have r1: "ordered_reachable demo_opt ?s1 (AfterMove True)"
    using ordered_reachable.after [OF demo_ordered
        ordered_step.rr_move [OF n(1), where stp = "\<lparr>r = 0, c = 1\<rparr>" and ju = 1
          and s = demo_start]]
    by (simp add: m)
  have r2: "ordered_reachable demo_opt ?s1 Armed"
    by (rule ordered_reachable.after [OF r1 ordered_step.rr_arm [OF g1]])
  have r3: "ordered_reachable demo_opt demo_burst AtTop"
    unfolding demo_burst_def
    by (rule ordered_reachable.after [OF r2 ordered_step.rr_burst [OF n(1)]])
  have ev: "toonPos (board demo_burst) ! ROADRUNNER = \<lparr>r = 2, c = 18\<rparr>"
    "toonPos (board demo_burst) ! COYOTE = \<lparr>r = 3, c = 16\<rparr>"
    "flag (board demo_burst) = \<lparr>r = 2, c = 18\<rparr>"
    by code_simp+
  show ?thesis
    using propose_step_rule [OF r3 g2 n(1), of 0 1 4]
      propose_step_rule [OF r3 g2 n(2), of 0 0 4]
      propose_step_rule [OF r3 g2 n(2), of 0 1 4]
      propose_step_rule [OF r3 g2 n(2), of double_0_70 1 3]
      r3 g2 n
    by (simp add: ev Let_def double_0_70_def)
qed

subsection \<open>The burst step and the win check\<close>

text \<open>
  C4. The claim holds for the normal move and the jump, which end in the win check of
  lines 241-246, and fails for the burst step, whose block (lines 275-286) has no win
  check. In the concrete race the RoadRunner steps from (2,16) to (2,17) and bursts onto
  the flag cell (2,18): at the end of the burst block, and of the whole iteration, it
  stands on a winning cell and the game-over flag is clear. In its next iteration it
  steps left, off the flag, and no winner is recorded.
\<close>

theorem burst_step_skips_win_check:
  "toonPos (board (burst_locked ROADRUNNER 4
       (fst (move_section demo_opt ROADRUNNER \<lparr>r = 0, c = 1\<rparr> 1 demo_start)))) ! ROADRUNNER
     = flag (board demo_start)
   \<and> \<not> gameOver (burst_locked ROADRUNNER 4
       (fst (move_section demo_opt ROADRUNNER \<lparr>r = 0, c = 1\<rparr> 1 demo_start)))
   \<and> toonPos (board (worker_tick demo_opt ROADRUNNER dash_draws demo_start)) ! ROADRUNNER
     = \<lparr>r = 2, c = 18\<rparr>
   \<and> win_cond (board (worker_tick demo_opt ROADRUNNER dash_draws demo_start)) \<lparr>r = 2, c = 18\<rparr>
   \<and> \<not> gameOver (worker_tick demo_opt ROADRUNNER dash_draws demo_start)
   \<and> winner (worker_tick demo_opt ROADRUNNER dash_draws demo_start) = - 1
   \<and> toonPos (board (worker_run demo_opt ROADRUNNER [dash_draws, left_draws] demo_start))
       ! ROADRUNNER = \<lparr>r = 2, c = 17\<rparr>
   \<and> \<not> gameOver (worker_run demo_opt ROADRUNNER [dash_draws, left_draws] demo_start)
   \<and> winner (worker_run demo_opt ROADRUNNER [dash_draws, left_draws] demo_start) = - 1"
  by code_simp

subsection \<open>The step cap and the end of a run without winner\<close>

lemma solo_init: "main_init solo_opt solo_draws = Some (solo_at 0)"
  by code_simp

lemma solo_tick: "worker_tick solo_opt ROADRUNNER stay_draws (solo_at n) = solo_at (n + 1)"
  by (simp add: worker_tick_def solo_at_def stay_draws_def solo_opt_def parseArgs_clamp_def
      default_Options_def time_point_min_def propose_step_def pick_step_def dirs_def
      move_section_def jump_part_def normal_part_def try_move_def blocked_def inBounds_def
      cell_at_def occ_def win_check_def win_cond_def shoot_section_def burst_section_def
      ROADRUNNER_def COYOTE_def YOSEMITESAM_def Let_def toward_def double_0_70_def
      double_0_15_def)

lemma solo_guard: "loop_guard (solo_at n)"
  by (simp add: loop_guard_def solo_at_def)

lemma solo_run:
  "worker_run solo_opt ROADRUNNER (replicate m stay_draws) (solo_at n) = solo_at (n + int m)"
  by (induction m arbitrary: n) (simp_all add: solo_tick solo_guard add.assoc)

text \<open>
  The claim C2 says that a run whose step count reaches the step cap without a winner
  terminates and reports that there is no winner, and that an aborted run reports it too.
  With the RoadRunner alone and a cap of 100, one hundred iterations that commit the zero
  step bring the step counter to the cap with no winner; the loop test still holds there
  and the next iteration commits move 101. When the run is stopped in that state, \<open>main\<close>
  prints no line at all after the board.
\<close>

theorem step_cap_no_winner_counterexample:
  "maxSteps solo_opt = 100
   \<and> main_init solo_opt solo_draws = Some (solo_at 0)
   \<and> worker_run solo_opt ROADRUNNER (replicate 100 stay_draws) (solo_at 0) = solo_at 100
   \<and> totalSteps (solo_at 100) = maxSteps solo_opt
   \<and> winner (solo_at 100) = - 1
   \<and> loop_guard (solo_at 100)
   \<and> totalSteps (worker_tick solo_opt ROADRUNNER stay_draws (solo_at 100)) = 101
   \<and> final_summary solo_opt ((solo_at 100)\<lparr>gStop := True\<rparr>) = []"
proof -
  have "maxSteps solo_opt = 100"
    by (simp add: solo_opt_def parseArgs_clamp_def default_Options_def)
  moreover have "worker_run solo_opt ROADRUNNER (replicate 100 stay_draws) (solo_at 0)
      = solo_at 100"
    using solo_run [of 100 0] by simp
  moreover have "final_summary solo_opt ((solo_at 100)\<lparr>gStop := True\<rparr>) = []"
    by (simp add: final_summary_def solo_at_def)
  ultimately show ?thesis
    by (simp add: solo_init solo_tick solo_guard) (simp add: solo_at_def)
qed

lemma step_keeps_stop: "step opt s s' \<Longrightarrow> gStop s \<Longrightarrow> gStop s'"
proof (induction rule: step.induct)
  case (move t s stp ju)
  then show ?case
    using normal_part_frame [of t _ "jump_part opt t stp ju s"]
      jump_part_frame [of opt t stp ju s]
    by (simp add: move_section_eq win_check_def Let_def)
next
  case (shoot s clk nowf)
  then show ?case by (simp add: shoot_locked_def Let_def)
next
  case (cooldown s v)
  then show ?case by simp
next
  case (burst s k)
  then show ?case by (simp add: burst_locked_def Let_def)
next
  case (stop s)
  then show ?case by simp
qed

lemma run_keeps_stop: "(step opt)\<^sup>*\<^sup>* s s' \<Longrightarrow> gStop s \<Longrightarrow> gStop s'"
  by (induction rule: rtranclp_induct) (auto dest: step_keeps_stop)

lemma worker_run_stopped: "\<not> loop_guard s \<Longrightarrow> worker_run opt t ds s = s"
  by (cases ds) simp_all

lemma final_summary_empty: "(final_summary opt s = []) = (winner s < 0)"
  by (auto simp: final_summary_def)

text \<open>
  C2, as the code has it. Once the stop flag is set (the external abort) it stays set; in
  every later state the test of the wait loop of \<open>main\<close> and of every worker loop fails,
  so a worker that comes to its loop test runs no further iteration (an iteration in
  flight is completed first, and may still record a winner). \<open>main\<close> then prints the final
  board with the step count, followed by the summary exactly when a winner is recorded;
  when none is recorded nothing follows the board, so no line says that there is no
  winner.
\<close>

theorem abort_ends_run:
  assumes "gStop s" and "(step opt)\<^sup>*\<^sup>* s s'"
  shows "gStop s' \<and> \<not> loop_guard s' \<and> worker_run opt t ds s' = s'
       \<and> main_final opt s'
           = print_board (board s') (rebuild_grid (board s')) (totalSteps s')
             @ (if winner s' < 0 then [] else final_summary opt s')
       \<and> (final_summary opt s' = []) = (winner s' < 0)"
proof -
  have st: "gStop s'" by (rule run_keeps_stop [OF assms(2,1)])
  then have g: "\<not> loop_guard s'" by (simp add: loop_guard_def)
  show ?thesis
    using st g by (simp add: worker_run_stopped main_final_def final_summary_empty)
qed

theorem abort_ends_run_witness:
  "gStop ((solo_at 100)\<lparr>gStop := True\<rparr>)
   \<and> (step solo_opt)\<^sup>*\<^sup>* ((solo_at 100)\<lparr>gStop := True\<rparr>) solo_abort
   \<and> winner solo_abort = - 1
   \<and> worker_run solo_opt 0 [stay_draws] solo_abort = solo_abort
   \<and> main_final solo_opt solo_abort
       = [''+--------------------+'', ''|...#...............||'',
          ''|.......#...........||'', ''|..................F||'',
          ''|...............#...||'', ''|R..................||'',
          ''+--------------------+'', ''steps: 101'', []]
   \<and> gStop ((go_right 0 demo_start)\<lparr>gStop := True\<rparr>)
   \<and> winner ((go_right 0 demo_start)\<lparr>gStop := True\<rparr>) = - 1
   \<and> (step demo_opt)\<^sup>*\<^sup>* ((go_right 0 demo_start)\<lparr>gStop := True\<rparr>) demo_abort
   \<and> winner demo_abort = 0
   \<and> main_final demo_opt demo_abort
       = [''+--------------------+'', ''|...#...............||'',
          ''|.......#...........||'', ''|..................R||'',
          ''|...............#C..||'', ''|Y..................||'',
          ''+--------------------+'', ''steps: 2'', [], ''=== Final Summary ==='',
          ''RoadRunner (R) steps: 2'', ''Coyote (C) steps: 0'',
          ''YosemiteSam (Y) steps: 0'', ''Winner: RoadRunner'']"
proof -
  let ?s = "(solo_at 100)\<lparr>gStop := True\<rparr>"
  let ?d = "(go_right 0 demo_start)\<lparr>gStop := True\<rparr>"
  have h: "gStop ?s" "gStop ?d" by simp_all
  have n: "0 < nat (toons solo_opt)"
    by (simp add: solo_opt_def parseArgs_clamp_def default_Options_def)
  have run: "(step solo_opt)\<^sup>*\<^sup>* ?s solo_abort"
    unfolding solo_abort_def by (rule r_into_rtranclp) (rule step.move [OF n])
  have run': "(step demo_opt)\<^sup>*\<^sup>* ?d demo_abort"
    unfolding demo_abort_def by (rule r_into_rtranclp) (simp add: step_go_right)
  have ev: "winner solo_abort = - 1" "winner ?d = - 1" "winner demo_abort = 0"
    "print_board (board solo_abort) (rebuild_grid (board solo_abort)) (totalSteps solo_abort)
       = [''+--------------------+'', ''|...#...............||'',
          ''|.......#...........||'', ''|..................F||'',
          ''|...............#...||'', ''|R..................||'',
          ''+--------------------+'', ''steps: 101'', []]"
    "main_final demo_opt demo_abort
       = [''+--------------------+'', ''|...#...............||'',
          ''|.......#...........||'', ''|..................R||'',
          ''|...............#C..||'', ''|Y..................||'',
          ''+--------------------+'', ''steps: 2'', [], ''=== Final Summary ==='',
          ''RoadRunner (R) steps: 2'', ''Coyote (C) steps: 0'',
          ''YosemiteSam (Y) steps: 0'', ''Winner: RoadRunner'']"
    by code_simp+
  show ?thesis
    using abort_ends_run [OF h(1) run, of 0 "[stay_draws]"]
      abort_ends_run [OF h(2) run', of 0 "[stay_draws]"] h run run' ev
    by simp
qed

end
